theory Spec2Isabelle
  imports Complex_Main "HOL-Library.List_Lexorder" "HOL-Library.Char_ord"
    "HOL-Library.Product_Lexorder"
begin

section \<open>Python primitives used by the dataset\<close>

text \<open>
  Exceptions of the source become values. \<open>Unsupported_keypoint_2d_src\<close> is the
  \<^verbatim>\<open>ValueError\<close> raised at the top of \<^verbatim>\<open>Human36mDataset.__init__\<close>; \<open>ValueError\<close>
  stands for every other \<^verbatim>\<open>ValueError\<close> (failed unpacking, zero slice step,
  \<^verbatim>\<open>randint\<close> with an empty range). \<open>ShapeMismatch\<close> is the error the
  specification names for arrays of the codec whose dimensions differ.
\<close>

datatype error =
    ValueError
  | ZeroDivisionError
  | IndexError
  | AssertionError
  | KeyError
  | TypeError
  | Unsupported_keypoint_2d_src string
  | Super_init_error
  | ShapeMismatch

text \<open>
  \<^verbatim>\<open>PySlice_AdjustIndices\<close>: how CPython clamps one bound of a slice of a sequence of
  length \<open>len\<close>, for the sign of the step.
\<close>

definition adjust_index :: "int \<Rightarrow> int \<Rightarrow> int \<Rightarrow> int" where
  "adjust_index len step i =
     (if i < 0 then (if i + len < 0 then (if step < 0 then - 1 else 0) else i + len)
      else if len \<le> i then (if step < 0 then len - 1 else len)
      else i)"

text \<open>The number of elements of \<^verbatim>\<open>range(start, stop, step)\<close> and of an adjusted slice.\<close>

definition slice_length :: "int \<Rightarrow> int \<Rightarrow> int \<Rightarrow> nat" where
  "slice_length start stop step =
     (if step < 0 then (if stop < start then nat ((start - stop - 1) div (- step) + 1) else 0)
      else (if start < stop then nat ((stop - start - 1) div step + 1) else 0))"

text \<open>\<^verbatim>\<open>xs[start:stop:step]\<close>; a zero step raises \<^verbatim>\<open>ValueError\<close>.\<close>

definition py_slice :: "'a list \<Rightarrow> int \<Rightarrow> int \<Rightarrow> int \<Rightarrow> error + 'a list" where
  "py_slice xs start stop step =
     (if step = 0 then Inl ValueError
      else (let n = int (length xs);
                s = adjust_index n step start;
                e = adjust_index n step stop
            in Inr (map (\<lambda>k. xs ! nat (s + int k * step)) [0..<slice_length s e step])))"

text \<open>\<^verbatim>\<open>list(range(start, stop, step))\<close>; a zero step raises \<^verbatim>\<open>ValueError\<close>.\<close>

definition py_range :: "int \<Rightarrow> int \<Rightarrow> int \<Rightarrow> error + int list" where
  "py_range start stop step =
     (if step = 0 then Inl ValueError
      else Inr (map (\<lambda>k. start + int k * step) [0..<slice_length start stop step]))"

text \<open>\<^verbatim>\<open>int(x)\<close> of a float: truncation towards zero.\<close>

definition py_int :: "rat \<Rightarrow> int" where
  "py_int q = (if q < 0 then \<lceil>q\<rceil> else \<lfloor>q\<rfloor>)"

text \<open>A list comprehension whose body may raise: the first exception ends it.\<close>

fun traverse :: "('a \<Rightarrow> error + 'b) \<Rightarrow> 'a list \<Rightarrow> error + 'b list" where
  "traverse f [] = Inr []"
| "traverse f (x # xs) =
     (case f x of
        Inl e \<Rightarrow> Inl e
      | Inr y \<Rightarrow> (case traverse f xs of Inl e \<Rightarrow> Inl e | Inr ys \<Rightarrow> Inr (y # ys)))"

section \<open>Image names\<close>

text \<open>\<^verbatim>\<open>posixpath.basename\<close>: what follows the last slash.\<close>

definition basename :: "string \<Rightarrow> string" where
  "basename p = rev (takeWhile (\<lambda>c. c \<noteq> CHR ''/'') (rev p))"

text \<open>
  \<^verbatim>\<open>a, b = s.split(sep, 1)\<close>: the split at the first separator; without a separator
  the split has one element and the unpacking raises \<^verbatim>\<open>ValueError\<close> (here \<open>None\<close>).
\<close>

definition split_once :: "char \<Rightarrow> string \<Rightarrow> (string \<times> string) option" where
  "split_once sep s =
     (if sep \<in> set s
      then Some (takeWhile (\<lambda>c. c \<noteq> sep) s, tl (dropWhile (\<lambda>c. c \<noteq> sep) s))
      else None)"

type_synonym video_key = "string \<times> string \<times> string"

definition parse_h36m_imgname :: "string \<Rightarrow> error + video_key" where
  "parse_h36m_imgname imgname =
     (case split_once CHR ''_'' (basename imgname) of
        None \<Rightarrow> Inl ValueError
      | Some (subj, rest) \<Rightarrow>
          (case split_once CHR ''.'' rest of
             None \<Rightarrow> Inl ValueError
           | Some (action, rest') \<Rightarrow>
               (case split_once CHR ''_'' rest' of
                  None \<Rightarrow> Inl ValueError
                | Some (camera, rest'') \<Rightarrow> Inr (subj, action, camera))))"

text \<open>
  \<^verbatim>\<open>get_camera_param\<close>: the attribute \<^verbatim>\<open>camera_param\<close> may be missing (\<open>None\<close>, the
  assertion fails); it is a dictionary keyed by (subject, camera).
\<close>

definition get_camera_param ::
  "((string \<times> string) \<rightharpoonup> 'c) option \<Rightarrow> string \<Rightarrow> error + 'c" where
  "get_camera_param camera_param imgname =
     (case camera_param of
        None \<Rightarrow> Inl AssertionError
      | Some table \<Rightarrow>
          (case parse_h36m_imgname imgname of
             Inl e \<Rightarrow> Inl e
           | Inr (subj, action, camera) \<Rightarrow>
               (case table (subj, camera) of None \<Rightarrow> Inl KeyError | Some p \<Rightarrow> Inr p)))"

section \<open>Sequence indices\<close>

record config =
  seq_len :: int
  seq_step :: int
  multiple_target :: int
  pad_video_seq :: bool
  causal :: bool
  subset_frac :: rat

text \<open>\<^verbatim>\<open>video_frames[key].append(idx)\<close> on a dictionary that keeps insertion order.\<close>

fun append_frame :: "'k \<Rightarrow> nat \<Rightarrow> ('k \<times> nat list) list \<Rightarrow> ('k \<times> nat list) list" where
  "append_frame key idx [] = [(key, [idx])]"
| "append_frame key idx ((k, frames) # rest) =
     (if k = key then (k, frames @ [idx]) # rest
      else (k, frames) # append_frame key idx rest)"

text \<open>The loop over \<^verbatim>\<open>enumerate(imgnames)\<close>, from index \<open>idx\<close> on.\<close>

fun video_frames ::
  "string list \<Rightarrow> nat \<Rightarrow> (video_key \<times> nat list) list \<Rightarrow> error + (video_key \<times> nat list) list" where
  "video_frames [] idx vf = Inr vf"
| "video_frames (imgname # rest) idx vf =
     (case parse_h36m_imgname imgname of
        Inl e \<Rightarrow> Inl e
      | Inr key \<Rightarrow> video_frames rest (Suc idx) (append_frame key idx vf))"

text \<open>The branch \<^verbatim>\<open>if self.multiple_target\<close>, for one video.\<close>

definition seqs_multiple_target :: "config \<Rightarrow> nat list \<Rightarrow> error + nat list list" where
  "seqs_multiple_target cfg indices =
     (let n_frame = int (length indices) in
      case py_range 0 n_frame (multiple_target cfg) of
        Inl e \<Rightarrow> Inl e
      | Inr starts \<Rightarrow>
          (case traverse (\<lambda>i. py_slice indices i (i + multiple_target cfg) (seq_step cfg)) starts of
             Inl e \<Rightarrow> Inl e
           | Inr seqs \<Rightarrow> py_slice seqs 0 (n_frame div multiple_target cfg) 1))"

text \<open>One iteration of the loop of the branch \<^verbatim>\<open>if self.pad_video_seq\<close>.\<close>

definition padded_sequence :: "config \<Rightarrow> nat list \<Rightarrow> int \<Rightarrow> error + nat list" where
  "padded_sequence cfg indices i =
     (let n_frame = int (length indices);
          step = seq_step cfg;
          frames_left = (if causal cfg then seq_len cfg - 1 else (seq_len cfg - 1) div 2);
          frames_right = (if causal cfg then 0 else frames_left)
      in if step = 0 then Inl ZeroDivisionError
         else (let pad_left = max 0 (frames_left - i div step);
                   pad_right = max 0 (frames_right - (n_frame - 1 - i) div step);
                   start = max (i mod step) (i - frames_left * step);
                   end = min (n_frame - (n_frame - 1 - i) mod step) (i + frames_right * step + 1)
               in if indices = [] then Inl IndexError
                  else (case py_slice indices start end step of
                          Inl e \<Rightarrow> Inl e
                        | Inr middle \<Rightarrow>
                            Inr (replicate (nat pad_left) (indices ! 0) @ middle @
                                 replicate (nat pad_right) (last indices)))))"

definition seqs_padded :: "config \<Rightarrow> nat list \<Rightarrow> error + nat list list" where
  "seqs_padded cfg indices =
     (case py_range 0 (int (length indices)) 1 of
        Inl e \<Rightarrow> Inl e
      | Inr frames \<Rightarrow> traverse (padded_sequence cfg indices) frames)"

text \<open>The last branch: the window of \<^verbatim>\<open>_len\<close> frames slid over the video.\<close>

definition seqs_sliding :: "config \<Rightarrow> nat list \<Rightarrow> error + nat list list" where
  "seqs_sliding cfg indices =
     (let n_frame = int (length indices);
          len = (seq_len cfg - 1) * seq_step cfg + 1
      in case py_range 0 (n_frame - len + 1) 1 of
           Inl e \<Rightarrow> Inl e
         | Inr starts \<Rightarrow> traverse (\<lambda>i. py_slice indices i (i + len) (seq_step cfg)) starts)"

text \<open>What one video, given by the indices of its frames, adds to \<^verbatim>\<open>sequence_indices\<close>.\<close>

definition seqs_from_video :: "config \<Rightarrow> nat list \<Rightarrow> error + nat list list" where
  "seqs_from_video cfg indices =
     (if multiple_target cfg \<noteq> 0 then seqs_multiple_target cfg indices
      else if pad_video_seq cfg then seqs_padded cfg indices
      else seqs_sliding cfg indices)"

text \<open>
  The list before the reduction: the videos in the order of \<^verbatim>\<open>sorted(video_frames.items())\<close>
  (the keys are distinct, so the order is that of the keys), their sequences concatenated.
\<close>

definition all_sequences :: "config \<Rightarrow> string list \<Rightarrow> error + nat list list" where
  "all_sequences cfg imgnames =
     (case video_frames imgnames 0 [] of
        Inl e \<Rightarrow> Inl e
      | Inr vf \<Rightarrow>
          (case traverse (\<lambda>(key, indices). seqs_from_video cfg indices) (sort_key fst vf) of
             Inl e \<Rightarrow> Inl e
           | Inr per_video \<Rightarrow> Inr (concat per_video)))"

text \<open>
  The reduction. Two operations of the source are outside the embedding and are taken
  as arguments: \<open>fmul n f\<close> is the double-precision product \<^verbatim>\<open>n * f\<close> of an integer and
  a float, and \<open>randint low high\<close> is the value \<^verbatim>\<open>np.random.randint(low, high)\<close> draws
  from the global random state; numpy raises \<^verbatim>\<open>ValueError\<close> when \<^verbatim>\<open>low >= high\<close>.
\<close>

definition reduce_dataset ::
  "(int \<Rightarrow> rat \<Rightarrow> rat) \<Rightarrow> (int \<Rightarrow> int \<Rightarrow> int) \<Rightarrow> config \<Rightarrow> 'a list \<Rightarrow> error + 'a list" where
  "reduce_dataset fmul randint cfg sequence_indices =
     (let total = int (length sequence_indices);
          subset_size = py_int (fmul total (subset_frac cfg));
          high = total - subset_size + 1
      in if high \<le> 0 then Inl ValueError
         else (let start = randint 0 high;
                   end = start + subset_size
               in py_slice sequence_indices start end 1))"

definition get_sequence_indices ::
  "(int \<Rightarrow> rat \<Rightarrow> rat) \<Rightarrow> (int \<Rightarrow> int \<Rightarrow> int) \<Rightarrow> config \<Rightarrow> string list \<Rightarrow> error + nat list list" where
  "get_sequence_indices fmul randint cfg imgnames =
     (case all_sequences cfg imgnames of
        Inl e \<Rightarrow> Inl e
      | Inr sequence_indices \<Rightarrow> reduce_dataset fmul randint cfg sequence_indices)"

text \<open>What \<^verbatim>\<open>np.random.randint\<close> guarantees of its result.\<close>

definition randint_ok :: "(int \<Rightarrow> int \<Rightarrow> int) \<Rightarrow> bool" where
  "randint_ok randint = (\<forall>low high. low < high \<longrightarrow> low \<le> randint low high \<and> randint low high < high)"

text \<open>The product of an integer and a float where it is exact.\<close>

definition exact_mul :: "int \<Rightarrow> rat \<Rightarrow> rat" where
  "exact_mul n f = of_int n * f"

text \<open>
  What the double-precision product guarantees for a fraction between 0 and 1: rounding
  is monotone, and 0 and the integer itself are floats.
\<close>

definition fmul_ok :: "(int \<Rightarrow> rat \<Rightarrow> rat) \<Rightarrow> bool" where
  "fmul_ok fmul =
     (\<forall>n f. 0 \<le> n \<longrightarrow> 0 \<le> f \<longrightarrow> f \<le> 1 \<longrightarrow> 0 \<le> fmul n f \<and> fmul n f \<le> of_int n)"

text \<open>Two random sources: the one that always draws the least value, and the greatest.\<close>

definition randint_low :: "int \<Rightarrow> int \<Rightarrow> int" where
  "randint_low low high = low"

definition randint_high :: "int \<Rightarrow> int \<Rightarrow> int" where
  "randint_high low high = high - 1"

text \<open>
  What the grouping loop maintains of an entry of \<^verbatim>\<open>video_frames\<close>: the indices are in
  increasing order, below \<open>bound\<close>, and each is a frame whose name parses to the key.
\<close>

definition frames_of_video :: "string list \<Rightarrow> nat \<Rightarrow> video_key \<Rightarrow> nat list \<Rightarrow> bool" where
  "frames_of_video imgnames bound key frames =
     (sorted frames \<and> (\<forall>i \<in> set frames. i < bound \<and> parse_h36m_imgname (imgnames ! i) = Inr key))"

text \<open>
  Every \<open>step\<close>-th element of a list, from the first on: what the spec means by a run
  of frames subsampled every \<open>seq_step\<close>.
\<close>

definition step_sample :: "nat \<Rightarrow> 'a list \<Rightarrow> 'a list" where
  "step_sample step xs = map (\<lambda>j. xs ! (j * step)) [0..<(length xs + step - 1) div step]"

section \<open>The constructor\<close>

definition SUPPORTED_keypoint_2d_src :: "string set" where
  "SUPPORTED_keypoint_2d_src = {''gt'', ''detection'', ''pipeline''}"

record init_args =
  keypoint_2d_src :: string
  keypoint_2d_det_file :: "string option"
  factor_file :: "string option"
  data_root :: "string option"
  settings :: config

text \<open>What \<^verbatim>\<open>__init__\<close> has stored on the object when it returns.\<close>

record 'b human36m_dataset =
  ds_keypoint_2d_src :: string
  ds_keypoint_2d_det_file :: "string option"
  ds_factor_file :: "string option"
  ds_settings :: config
  ds_base :: 'b

text \<open>\<^verbatim>\<open>posixpath.join\<close> of two components.\<close>

definition osp_join :: "string \<Rightarrow> string \<Rightarrow> string" where
  "osp_join a b =
     (if b \<noteq> [] \<and> hd b = CHR ''/'' then b
      else if a = [] \<or> last a = CHR ''/'' then a @ b
      else a @ ''/'' @ b)"

text \<open>
  \<^verbatim>\<open>if file: if not is_abs(file): file = osp.join(data_root, file)\<close>. A file name that
  is \<^verbatim>\<open>None\<close> or empty is left alone; joining to a \<^verbatim>\<open>data_root\<close> that is \<^verbatim>\<open>None\<close>
  raises \<^verbatim>\<open>TypeError\<close>.
\<close>

definition resolve_file ::
  "(string \<Rightarrow> bool) \<Rightarrow> string option \<Rightarrow> string option \<Rightarrow> error + string option" where
  "resolve_file is_abs dir file =
     (case file of
        None \<Rightarrow> Inr None
      | Some f \<Rightarrow>
          if f = [] then Inr (Some f)
          else if is_abs f then Inr (Some f)
          else (case dir of None \<Rightarrow> Inl TypeError | Some r \<Rightarrow> Inr (Some (osp_join r f))))"

text \<open>
  \<^verbatim>\<open>Human36mDataset.__init__\<close>. The functions \<^verbatim>\<open>is_abs\<close> and \<^verbatim>\<open>exists\<close> of mmengine and
  the constructor of the base class are arguments; whatever the base class raises is
  \<open>Super_init_error\<close>.
\<close>

definition init ::
  "(string \<Rightarrow> bool) \<Rightarrow> (string \<Rightarrow> bool) \<Rightarrow> (init_args \<Rightarrow> 'b option) \<Rightarrow> init_args \<Rightarrow>
     error + 'b human36m_dataset" where
  "init is_abs exists super_init args =
     (if keypoint_2d_src args \<notin> SUPPORTED_keypoint_2d_src
      then Inl (Unsupported_keypoint_2d_src (keypoint_2d_src args))
      else (case resolve_file is_abs (data_root args) (keypoint_2d_det_file args) of
              Inl e \<Rightarrow> Inl e
            | Inr det_file \<Rightarrow>
                (case resolve_file is_abs (data_root args) (factor_file args) of
                   Inl e \<Rightarrow> Inl e
                 | Inr factor \<Rightarrow>
                     if (case factor of None \<Rightarrow> False | Some f \<Rightarrow> f \<noteq> [] \<and> \<not> exists f)
                     then Inl AssertionError
                     else (case super_init (args\<lparr>factor_file := factor\<rparr>) of
                             None \<Rightarrow> Inl Super_init_error
                           | Some base \<Rightarrow>
                               Inr \<lparr>ds_keypoint_2d_src = keypoint_2d_src args,
                                    ds_keypoint_2d_det_file = det_file,
                                    ds_factor_file = factor,
                                    ds_settings = settings args,
                                    ds_base = base\<rparr>))))"

section \<open>The pose-lifting codec\<close>

text \<open>
  Modelled from the spec: the codec (\<^verbatim>\<open>MonoPoseLifting\<close>, with its \<^verbatim>\<open>encode\<close>) is not
  among the sources, only its tests are. Every definition of this section follows
  sections 3 and 4.2 of the specification. The root joint is joint 0.
\<close>




text \<open>Modelled from the spec: the frame width and height of the camera parameters.\<close>

record camera =
  cam_w :: real
  cam_h :: real



text \<open>Modelled from the spec: an array of leading dimensions \<open>[N, K]\<close>, frames and joints.\<close>

definition has_shape :: "'a list list \<Rightarrow> nat \<Rightarrow> nat \<Rightarrow> bool" where
  "has_shape frames N K = (length frames = N \<and> list_all (\<lambda>frame. length frame = K) frames)"




section \<open>Example data\<close>

text \<open>The defaults of the constructor.\<close>

definition default_config :: config where
  "default_config = \<lparr>seq_len = 1, seq_step = 1, multiple_target = 0, pad_video_seq = False,
     causal = True, subset_frac = 1\<rparr>"

text \<open>Ten frames of one video, named as Human3.6M names its images.\<close>

definition ten_frames :: "string list" where
  "ten_frames = map (\<lambda>c. ''S1_Walking.54138969_00000'' @ [c] @ ''.jpg'') ''0123456789''"

text \<open>Four frames of one video, and a configuration that keeps 7/16 of the sequences.\<close>

definition four_frames :: "string list" where
  "four_frames = map (\<lambda>c. ''S1_Walking.54138969_00000'' @ [c] @ ''.jpg'') ''0123''"

definition subset_config :: config where
  "subset_config = default_config\<lparr>subset_frac := 7 / 16\<rparr>"

text \<open>Frames of two videos, interleaved, and a configuration with centred, padded windows.\<close>

definition two_videos :: "string list" where
  "two_videos =
     [''S1_Walking.54138969_000001.jpg'', ''S5_Eating.55011271_000001.jpg'',
      ''S1_Walking.54138969_000002.jpg'', ''S1_Walking.54138969_000003.jpg'']"

definition centred_config :: config where
  "centred_config = default_config\<lparr>seq_len := 3, pad_video_seq := True, causal := False\<rparr>"

text \<open>Arguments of the constructor: the defaults, and an unknown keypoint source.\<close>

definition default_args :: init_args where
  "default_args = \<lparr>keypoint_2d_src = ''gt'', keypoint_2d_det_file = None, factor_file = None,
     data_root = None, settings = default_config\<rparr>"

definition unknown_src_args :: init_args where
  "unknown_src_args = default_args\<lparr>keypoint_2d_src := ''ground_truth''\<rparr>"

text \<open>Three frames of one video, and a centred, padded window of even length.\<close>

definition three_frames :: "string list" where
  "three_frames = map (\<lambda>c. ''S1_Walking.54138969_00000'' @ [c] @ ''.jpg'') ''012''"

definition even_centred_config :: config where
  "even_centred_config = default_config\<lparr>seq_len := 2, pad_video_seq := True, causal := False\<rparr>"








text \<open>
  Five and eight frames of one video; a padded causal window with a negative step; and
  merged sequences of three frames sampled every second frame.
\<close>

definition five_frames :: "string list" where
  "five_frames = map (\<lambda>c. ''S1_Walking.54138969_00000'' @ [c] @ ''.jpg'') ''01234''"

definition eight_frames :: "string list" where
  "eight_frames = map (\<lambda>c. ''S1_Walking.54138969_00000'' @ [c] @ ''.jpg'') ''01234567''"

definition reversed_config :: config where
  "reversed_config = default_config\<lparr>seq_len := 3, seq_step := - 2, pad_video_seq := True\<rparr>"

definition merged_config :: config where
  "merged_config = default_config\<lparr>seq_step := 2, multiple_target := 3\<rparr>"

section \<open>Lemmas on the primitives\<close>

lemma traverse_Inr_D:
  "traverse f xs = Inr ys \<Longrightarrow> list_all2 (\<lambda>x y. f x = Inr y) xs ys"
  by (induction xs arbitrary: ys) (auto split: sum.splits)

lemma py_slice_Inr:
  "step \<noteq> 0 \<Longrightarrow> \<exists>ys. py_slice xs a b step = Inr ys"
  by (simp add: py_slice_def Let_def)

lemma slice_length_unit: "slice_length 0 m 1 = nat m"
  by (simp add: slice_length_def)

lemma py_range_unit: "py_range 0 m 1 = Inr (map int [0..<nat m])"
  by (simp add: py_range_def slice_length_unit)

lemma traverse_total:
  "(\<And>x. x \<in> set xs \<Longrightarrow> \<exists>y. f x = Inr y) \<Longrightarrow> \<exists>ys. traverse f xs = Inr ys \<and> length ys = length xs"
proof (induction xs)
  case Nil
  then show ?case by simp
next
  case (Cons x xs)
  then obtain y where "f x = Inr y" by auto
  moreover from Cons obtain ys where "traverse f xs = Inr ys" "length ys = length xs" by auto
  ultimately show ?case by simp
qed

lemma adjust_index_bounds:
  "0 < step \<Longrightarrow> 0 \<le> n \<Longrightarrow> 0 \<le> adjust_index n step i \<and> adjust_index n step i \<le> n"
  by (simp add: adjust_index_def)

lemma adjust_index_inside:
  "0 < step \<Longrightarrow> 0 \<le> i \<Longrightarrow> i \<le> n \<Longrightarrow> adjust_index n step i = i"
  by (simp add: adjust_index_def)

lemma div_mult_le_int: "0 < (d::int) \<Longrightarrow> x div d * d \<le> x"
  using div_mult_mod_eq[of x d] pos_mod_sign[of d x] by linarith

lemma slice_position_bound:
  assumes "0 < step" "k < slice_length s e step"
  shows "s + int k * step < e"
proof -
  from assms have se: "s < e" and k: "int k \<le> (e - s - 1) div step"
    by (auto simp: slice_length_def split: if_splits)
  have "int k * step \<le> (e - s - 1) div step * step"
    using k assms(1) by (simp add: mult_right_mono)
  also have "\<dots> \<le> e - s - 1"
    using assms(1) by (rule div_mult_le_int)
  finally show ?thesis by simp
qed

lemma py_slice_pos_nth:
  assumes "0 < step" "py_slice xs a b step = Inr ys"
  shows "\<exists>s. 0 \<le> s \<and> length ys = slice_length s (adjust_index (int (length xs)) step b) step \<and>
           (\<forall>k < length ys. nat (s + int k * step) < length xs \<and> ys ! k = xs ! nat (s + int k * step))"
proof -
  let ?n = "int (length xs)"
  let ?s = "adjust_index ?n step a"
  let ?e = "adjust_index ?n step b"
  have ys: "ys = map (\<lambda>k. xs ! nat (?s + int k * step)) [0..<slice_length ?s ?e step]"
    using assms by (simp add: py_slice_def Let_def)
  have s0: "0 \<le> ?s" and en: "?e \<le> ?n"
    using adjust_index_bounds[OF assms(1), of ?n] by simp_all
  have "nat (?s + int k * step) < length xs" if "k < slice_length ?s ?e step" for k
  proof -
    have "0 \<le> int k * step" using assms(1) by simp
    then have "0 \<le> ?s + int k * step" using s0 by linarith
    moreover have "?s + int k * step < int (length xs)"
      using slice_position_bound[OF assms(1) that] en by linarith
    ultimately show ?thesis by (simp add: nat_less_iff)
  qed
  then show ?thesis using ys s0 by (intro exI[of _ ?s]) simp
qed

lemma py_slice_pos_subset:
  assumes "0 < step" "py_slice xs a b step = Inr ys"
  shows "set ys \<subseteq> set xs"
proof
  fix y assume "y \<in> set ys"
  then obtain k where k: "k < length ys" "ys ! k = y" by (auto simp: in_set_conv_nth)
  from py_slice_pos_nth[OF assms] k show "y \<in> set xs" by (metis nth_mem)
qed

lemma py_slice_pos_sorted:
  fixes xs :: "('a::linorder) list"
  assumes "0 < step" "py_slice xs a b step = Inr ys" "sorted xs"
  shows "sorted ys"
proof -
  from py_slice_pos_nth[OF assms(1,2)] obtain s where s: "0 \<le> s"
    "\<forall>k < length ys. nat (s + int k * step) < length xs \<and> ys ! k = xs ! nat (s + int k * step)"
    by blast
  have "ys ! i \<le> ys ! j" if "i \<le> j" "j < length ys" for i j
  proof -
    have "int i * step \<le> int j * step" using that assms(1) by (simp add: mult_right_mono)
    then have "nat (s + int i * step) \<le> nat (s + int j * step)" by simp
    moreover have "nat (s + int j * step) < length xs" using s that by simp
    ultimately have "xs ! nat (s + int i * step) \<le> xs ! nat (s + int j * step)"
      using assms(3) by (simp add: sorted_nth_mono)
    then show ?thesis using s that by simp
  qed
  then show ?thesis by (simp add: sorted_iff_nth_mono)
qed

lemma py_slice_unit:
  assumes "0 \<le> a" "a \<le> b" "b \<le> int (length xs)"
  shows "py_slice xs a b 1 = Inr (take (nat (b - a)) (drop (nat a) xs))"
proof -
  have "map (\<lambda>k. xs ! nat (a + int k)) [0..<nat (b - a)] = take (nat (b - a)) (drop (nat a) xs)"
    using assms by (intro nth_equalityI) (auto simp: nat_add_distrib)
  then show ?thesis
    using assms by (simp add: py_slice_def Let_def adjust_index_inside slice_length_def)
qed

section \<open>The sliding window\<close>

lemma seqs_sliding_count:
  assumes "seq_step cfg \<noteq> 0"
  shows "\<exists>seqs. seqs_sliding cfg indices = Inr seqs \<and>
           int (length seqs) = max 0 (int (length indices) - ((seq_len cfg - 1) * seq_step cfg + 1) + 1)"
proof -
  let ?len = "(seq_len cfg - 1) * seq_step cfg + 1"
  let ?starts = "map int [0..<nat (int (length indices) - ?len + 1)]"
  have "\<exists>ys. traverse (\<lambda>i. py_slice indices i (i + ?len) (seq_step cfg)) ?starts = Inr ys
          \<and> length ys = length ?starts"
    by (rule traverse_total) (simp add: py_slice_Inr assms)
  then show ?thesis
    by (auto simp: seqs_sliding_def Let_def py_range_unit)
qed

lemma randint_ok_unit: "randint_ok randint \<Longrightarrow> randint 0 1 = 0"
proof -
  assume "randint_ok randint"
  then have "0 \<le> randint 0 1 \<and> randint 0 1 < 1"
    unfolding randint_ok_def by (metis zero_less_one)
  then show ?thesis by linarith
qed

lemma reduce_dataset_full:
  assumes "randint_ok randint" "py_int (fmul (int (length xs)) (subset_frac cfg)) = int (length xs)"
  shows "reduce_dataset fmul randint cfg xs = Inr xs"
  using assms py_slice_unit[of 0 "int (length xs)" xs]
  by (simp add: reduce_dataset_def Let_def randint_ok_unit)

lemma ten_frames_all:
  "all_sequences default_config ten_frames = Inr (map (\<lambda>i. [i]) [0..<10])"
  by code_simp

lemma ten_frames_size:
  "py_int (exact_mul (int (length (map (\<lambda>i. [i]) [0..<10::nat]))) (subset_frac default_config)) = 10"
  by (simp add: exact_mul_def default_config_def py_int_def)

text \<open>
  Claim C3. Without merging and without padding, a video of \<open>n\<close> frames adds exactly
  \<open>max 0 (n - ((seq_len - 1) * seq_step + 1) + 1)\<close> sequences, so none when it is shorter
  than the window; and with the default configuration a table of ten frames of one video
  gives the ten singletons \<open>[0]\<close>, ..., \<open>[9]\<close>, whatever start the random source draws.
\<close>

theorem sliding_window_count:
  "(multiple_target cfg = 0 \<and> \<not> pad_video_seq cfg \<and> seq_step cfg \<noteq> 0 \<longrightarrow>
      (\<exists>seqs. seqs_from_video cfg indices = Inr seqs \<and>
         int (length seqs) =
           max 0 (int (length indices) - ((seq_len cfg - 1) * seq_step cfg + 1) + 1) \<and>
         (int (length indices) < (seq_len cfg - 1) * seq_step cfg + 1 \<longrightarrow> seqs = []))) \<and>
   (randint_ok randint \<longrightarrow>
      get_sequence_indices exact_mul randint default_config ten_frames =
        Inr [[0], [1], [2], [3], [4], [5], [6], [7], [8], [9]])"
proof (intro conjI impI)
  assume a: "multiple_target cfg = 0 \<and> \<not> pad_video_seq cfg \<and> seq_step cfg \<noteq> 0"
  then obtain seqs where s: "seqs_sliding cfg indices = Inr seqs"
    "int (length seqs) = max 0 (int (length indices) - ((seq_len cfg - 1) * seq_step cfg + 1) + 1)"
    using seqs_sliding_count[of cfg indices] by blast
  have "seqs_from_video cfg indices = Inr seqs"
    using a s by (simp add: seqs_from_video_def)
  moreover have "int (length indices) < (seq_len cfg - 1) * seq_step cfg + 1 \<longrightarrow> seqs = []"
    using s(2) by auto
  ultimately show "\<exists>seqs. seqs_from_video cfg indices = Inr seqs \<and>
         int (length seqs) =
           max 0 (int (length indices) - ((seq_len cfg - 1) * seq_step cfg + 1) + 1) \<and>
         (int (length indices) < (seq_len cfg - 1) * seq_step cfg + 1 \<longrightarrow> seqs = [])"
    using s(2) by blast
next
  assume r: "randint_ok randint"
  have "reduce_dataset exact_mul randint default_config (map (\<lambda>i. [i]) [0..<10::nat])
      = Inr (map (\<lambda>i. [i]) [0..<10])"
    using r ten_frames_size by (intro reduce_dataset_full) simp_all
  moreover have "map (\<lambda>i. [i]) [0..<10::nat] = [[0], [1], [2], [3], [4], [5], [6], [7], [8], [9]]"
    by code_simp
  ultimately show "get_sequence_indices exact_mul randint default_config ten_frames =
        Inr [[0], [1], [2], [3], [4], [5], [6], [7], [8], [9]]"
    by (simp add: get_sequence_indices_def ten_frames_all)
qed

theorem sliding_window_count_witness:
  "(\<exists>seqs. seqs_from_video (default_config\<lparr>seq_len := 2, seq_step := 2\<rparr>) [0, 1, 2, 3, 4] = Inr seqs \<and>
      length seqs = 3) \<and>
   (\<exists>seqs. seqs_from_video (default_config\<lparr>seq_len := 4, seq_step := 2\<rparr>) [0, 1, 2, 3, 4] = Inr seqs \<and>
      seqs = []) \<and>
   get_sequence_indices exact_mul (\<lambda>low high. low) default_config ten_frames =
     Inr [[0], [1], [2], [3], [4], [5], [6], [7], [8], [9]]"
  using sliding_window_count[of "default_config\<lparr>seq_len := 2, seq_step := 2\<rparr>" "[0, 1, 2, 3, 4]" "\<lambda>low high. low"]
    sliding_window_count[of "default_config\<lparr>seq_len := 4, seq_step := 2\<rparr>" "[0, 1, 2, 3, 4]" "\<lambda>low high. low"]
  by (simp add: default_config_def randint_ok_def)

section \<open>Merged multi-target sequences\<close>

lemma slice_length_pos:
  "0 < step \<Longrightarrow> s < e \<Longrightarrow> slice_length s e step = nat ((e - s - 1) div step + 1)"
  by (simp add: slice_length_def)

lemma ceil_div_nat:
  assumes "0 < m" "0 < s"
  shows "nat ((int m - 1) div int s + 1) = (m + s - 1) div s"
proof -
  have h: "int m - 1 = int (m - 1)" using assms by simp
  have "(int m - 1) div int s + 1 = int ((m - 1) div s + 1)"
    unfolding h by (simp only: of_nat_div of_nat_add of_nat_1)
  then have "nat ((int m - 1) div int s + 1) = (m - 1) div s + 1"
    by (simp only: nat_int)
  also have "\<dots> = (m - 1 + s) div s" using assms(2) by simp
  also have "m - 1 + s = m + s - 1" using assms(1) by simp
  finally show ?thesis .
qed

lemma step_position_bound:
  assumes "0 < (s::nat)" "j < (m + s - 1) div s"
  shows "j * s < m"
proof -
  have "Suc j * s \<le> (m + s - 1) div s * s"
    using assms(2) by (intro mult_le_mono1) simp
  also have "\<dots> \<le> m + s - 1" by (rule div_times_less_eq_dividend)
  finally show ?thesis using assms(1) by simp
qed

lemma py_slice_group:
  assumes "0 < m" "0 < s" "k * m + m \<le> length xs"
  shows "py_slice xs (int (k * m)) (int (k * m) + int m) (int s) =
           Inr (step_sample s (take m (drop (k * m) xs)))"
proof -
  let ?n = "int (length xs)"
  let ?a = "int (k * m)"
  have bound: "?a + int m \<le> ?n"
    using assms(3) by (metis of_nat_add of_nat_le_iff)
  have a0: "0 \<le> ?a" by simp
  have a: "adjust_index ?n (int s) ?a = ?a"
    using assms(2) bound a0 by (intro adjust_index_inside) linarith+
  have b: "adjust_index ?n (int s) (?a + int m) = ?a + int m"
    using assms(2) bound a0 by (intro adjust_index_inside) linarith+
  have "slice_length ?a (?a + int m) (int s) = nat ((int m - 1) div int s + 1)"
    using assms(1,2) by (subst slice_length_pos) simp_all
  then have len: "slice_length ?a (?a + int m) (int s) = (m + s - 1) div s"
    using assms ceil_div_nat[of m s] by simp
  have run: "length (take m (drop (k * m) xs)) = m" using assms by simp
  have "map (\<lambda>j. xs ! nat (?a + int j * int s)) [0..<(m + s - 1) div s] =
        map (\<lambda>j. take m (drop (k * m) xs) ! (j * s)) [0..<(m + s - 1) div s]"
  proof (rule map_cong[OF refl])
    fix j assume "j \<in> set [0..<(m + s - 1) div s]"
    then have "j < (m + s - 1) div s" by simp
    then have js: "j * s < m" using assms(2) by (intro step_position_bound)
    have "?a + int j * int s = int (k * m + j * s)" by simp
    then have "nat (?a + int j * int s) = k * m + j * s" by (metis nat_int)
    then show "xs ! nat (?a + int j * int s) = take m (drop (k * m) xs) ! (j * s)"
      using js assms(3) by simp
  qed
  then show ?thesis
    unfolding py_slice_def Let_def a b len step_sample_def run
    using assms(2) by simp
qed


lemma slice_length_iff:
  assumes "0 < step"
  shows "k < slice_length s e step \<longleftrightarrow> s + int k * step < e"
proof
  assume "k < slice_length s e step"
  then show "s + int k * step < e" using assms by (intro slice_position_bound)
next
  assume a: "s + int k * step < e"
  have "0 \<le> int k * step" using assms by simp
  then have se: "s < e" using a by linarith
  have "int k * step \<le> e - s - 1" using a by linarith
  then have "int k * step div step \<le> (e - s - 1) div step" by (rule zdiv_mono1) (rule assms)
  then have "int k \<le> (e - s - 1) div step" using assms by simp
  then have "k < nat ((e - s - 1) div step + 1)" by linarith
  then show "k < slice_length s e step" using assms se by (simp add: slice_length_pos)
qed

lemma group_fits:
  assumes "0 < (m::nat)" "k < n div m"
  shows "k * m + m \<le> n"
proof -
  have "Suc k * m \<le> n div m * m" using assms(2) by (intro mult_le_mono1) simp
  also have "\<dots> \<le> n" by (rule div_times_less_eq_dividend)
  finally show ?thesis by simp
qed

lemma seqs_multiple_target_groups:
  assumes "0 < multiple_target cfg" "1 \<le> seq_step cfg"
  shows "\<exists>seqs. seqs_multiple_target cfg indices = Inr seqs \<and>
           length seqs = length indices div nat (multiple_target cfg) \<and>
           (\<forall>k < length seqs. seqs ! k =
              step_sample (nat (seq_step cfg))
                (take (nat (multiple_target cfg)) (drop (k * nat (multiple_target cfg)) indices)))"
proof -
  define m where "m = nat (multiple_target cfg)"
  define s where "s = nat (seq_step cfg)"
  define n where "n = length indices"
  define c where "c = slice_length 0 (int n) (int m)"
  define f where "f = (\<lambda>i. py_slice indices i (i + int m) (int s))"
  define starts where "starts = map (\<lambda>k. 0 + int k * int m) [0..<c]"
  have M: "multiple_target cfg = int m" and S: "seq_step cfg = int s" and m0: "0 < m" and s0: "0 < s"
    using assms by (simp_all add: m_def s_def)
  have range: "py_range 0 (int n) (int m) = Inr starts"
    using m0 by (simp add: py_range_def starts_def c_def)
  have "\<exists>ys. traverse f starts = Inr ys \<and> length ys = length starts"
    unfolding f_def using s0 by (intro traverse_total py_slice_Inr) simp
  then obtain seqs0 where seqs0: "traverse f starts = Inr seqs0" "length seqs0 = c"
    by (auto simp: starts_def)
  have each: "f (starts ! k) = Inr (seqs0 ! k)" if "k < c" for k
    using traverse_Inr_D[OF seqs0(1)] that seqs0(2) by (simp add: list_all2_conv_all_nth)
  have qc: "n div m \<le> c"
  proof -
    have "k < c" if "k < n div m" for k
    proof -
      have "k * m + m \<le> n" using m0 that by (rule group_fits)
      then have "k * m < n" using m0 by linarith
      then have "0 + int k * int m < int n" by (metis add_0 of_nat_less_iff of_nat_mult)
      then show ?thesis unfolding c_def using m0 by (subst slice_length_iff) simp_all
    qed
    then show ?thesis by (meson linorder_not_less order_less_irrefl)
  qed
  have div: "int n div int m = int (n div m)" by (simp add: zdiv_int)
  have cut: "py_slice seqs0 0 (int (n div m)) 1 = Inr (take (n div m) seqs0)"
    using py_slice_unit[of 0 "int (n div m)" seqs0] qc seqs0(2) by simp
  have result: "seqs_multiple_target cfg indices = Inr (take (n div m) seqs0)"
    unfolding seqs_multiple_target_def Let_def M S
    using range seqs0(1) cut by (simp add: n_def[symmetric] f_def[symmetric] div)
  have "take (n div m) seqs0 ! k = step_sample s (take m (drop (k * m) indices))"
    if "k < n div m" for k
  proof -
    have kc: "k < c" using that qc by linarith
    have fits: "k * m + m \<le> length indices" using group_fits[OF m0 that] by (simp add: n_def)
    have "starts ! k = int (k * m)" using kc by (simp add: starts_def)
    then have "f (starts ! k) = Inr (step_sample s (take m (drop (k * m) indices)))"
      unfolding f_def using py_slice_group[OF m0 s0 fits] by simp
    then have "seqs0 ! k = step_sample s (take m (drop (k * m) indices))"
      using each[OF kc] by simp
    then show ?thesis using that by simp
  qed
  moreover have "length (take (n div m) seqs0) = n div m" using qc seqs0(2) by simp
  ultimately show ?thesis
    using result unfolding m_def[symmetric] s_def[symmetric] n_def[symmetric] by auto
qed


lemma step_sample_subset: "0 < s \<Longrightarrow> set (step_sample s xs) \<subseteq> set xs"
  unfolding step_sample_def using step_position_bound[of s _ "length xs"] by auto

lemma group_subset:
  assumes "0 < (m::nat)" "k < length xs div m"
  shows "set (take m (drop (k * m) xs)) \<subseteq> set (take (length xs div m * m) xs)"
proof -
  have "Suc k * m \<le> length xs div m * m" using assms(2) by (intro mult_le_mono1) simp
  then have le: "m + k * m \<le> length xs div m * m" by simp
  have "take m (drop (k * m) xs) = drop (k * m) (take (m + k * m) xs)" by (rule take_drop)
  then have "set (take m (drop (k * m) xs)) \<subseteq> set (take (m + k * m) xs)"
    by (simp add: set_drop_subset)
  also have "\<dots> \<subseteq> set (take (length xs div m * m) xs)"
    using le by (rule set_take_subset_set_take)
  finally show ?thesis .
qed

text \<open>
  Claim C4, as stated, fails: a merged sequence holds the run of \<open>m\<close> frames sampled
  every \<open>seq_step\<close> frames, not \<open>m\<close> indices. With \<open>multiple_target = 3\<close> and
  \<open>seq_step = 2\<close> a video of eight frames gives \<open>[0, 2]\<close> and \<open>[3, 5]\<close>, of two indices each.
\<close>

theorem merged_sequence_length_counterexample:
  "multiple_target merged_config = 3 \<and> seq_step merged_config = 2 \<and>
   get_sequence_indices exact_mul randint_low merged_config eight_frames =
     Inr [[0, 2], [3, 5]] \<and>
   length [0, 2::nat] \<noteq> 3"
proof -
  have "get_sequence_indices exact_mul randint_low merged_config eight_frames =
     Inr [[0, 2], [3, 5]]"
    by code_simp
  then show ?thesis by (simp add: merged_config_def default_config_def)
qed

text \<open>
  Claim C4, amended. With \<open>multiple_target = m > 0\<close> and \<open>seq_step \<ge> 1\<close> a video of \<open>n\<close>
  frames adds exactly \<open>n div m\<close> sequences; the \<open>k\<close>-th is the run of \<open>m\<close> consecutive
  frames from position \<open>k * m\<close> on, sampled every \<open>seq_step\<close> frames, so it has \<open>m\<close>
  divided by \<open>seq_step\<close>, rounded up, indices (\<open>m\<close> when \<open>seq_step = 1\<close>); no frame of the
  trailing partial group occurs in a sequence.
\<close>

theorem merged_target_sequences:
  assumes "0 < multiple_target cfg" "1 \<le> seq_step cfg"
  shows "\<exists>seqs. seqs_from_video cfg indices = Inr seqs \<and>
           length seqs = length indices div nat (multiple_target cfg) \<and>
           (\<forall>k < length seqs.
              seqs ! k = step_sample (nat (seq_step cfg))
                (take (nat (multiple_target cfg)) (drop (k * nat (multiple_target cfg)) indices)) \<and>
              length (seqs ! k) =
                (nat (multiple_target cfg) + nat (seq_step cfg) - 1) div nat (seq_step cfg) \<and>
              (seq_step cfg = 1 \<longrightarrow> length (seqs ! k) = nat (multiple_target cfg)) \<and>
              set (seqs ! k) \<subseteq>
                set (take (length indices div nat (multiple_target cfg) * nat (multiple_target cfg))
                  indices))"
proof -
  define m where "m = nat (multiple_target cfg)"
  define s where "s = nat (seq_step cfg)"
  have m0: "0 < m" and s0: "0 < s" using assms by (simp_all add: m_def s_def)
  obtain seqs where seqs: "seqs_multiple_target cfg indices = Inr seqs"
    "length seqs = length indices div m"
    "\<forall>k < length seqs. seqs ! k = step_sample s (take m (drop (k * m) indices))"
    using seqs_multiple_target_groups[OF assms, of indices] unfolding m_def s_def by blast
  have run: "seqs_from_video cfg indices = Inr seqs"
    using assms(1) seqs(1) by (simp add: seqs_from_video_def)
  have "seqs ! k = step_sample s (take m (drop (k * m) indices)) \<and>
        length (seqs ! k) = (m + s - 1) div s \<and>
        (seq_step cfg = 1 \<longrightarrow> length (seqs ! k) = m) \<and>
        set (seqs ! k) \<subseteq> set (take (length indices div m * m) indices)"
    if k: "k < length seqs" for k
  proof -
    have kq: "k < length indices div m" using k seqs(2) by simp
    have eq: "seqs ! k = step_sample s (take m (drop (k * m) indices))" using seqs(3) k by simp
    have "k * m + m \<le> length indices" using m0 kq by (rule group_fits)
    then have runlen: "length (take m (drop (k * m) indices)) = m" by simp
    have len: "length (seqs ! k) = (m + s - 1) div s"
      unfolding eq step_sample_def runlen by simp
    have one: "seq_step cfg = 1 \<longrightarrow> length (seqs ! k) = m"
      using len by (simp add: s_def)
    have "set (seqs ! k) \<subseteq> set (take m (drop (k * m) indices))"
      unfolding eq using s0 by (rule step_sample_subset)
    also have "\<dots> \<subseteq> set (take (length indices div m * m) indices)"
      using m0 kq by (rule group_subset)
    finally show ?thesis using eq len one by blast
  qed
  then show ?thesis
    using run seqs(2) unfolding m_def s_def by blast
qed

theorem merged_target_sequences_witness:
  "\<exists>seqs. seqs_from_video (default_config\<lparr>seq_step := 2, multiple_target := 3\<rparr>)
            [10, 11, 12, 13, 14, 15, 16, 17] = Inr seqs \<and>
          length seqs = 2 \<and> seqs ! 0 = [10, 12] \<and> seqs ! 1 = [13, 15]"
proof -
  let ?cfg = "default_config\<lparr>seq_step := 2, multiple_target := 3\<rparr>"
  have h: "0 < multiple_target ?cfg" "1 \<le> seq_step ?cfg" by (simp_all add: default_config_def)
  obtain seqs where seqs: "seqs_from_video ?cfg [10, 11, 12, 13, 14, 15, 16, 17] = Inr seqs"
    "length seqs = length [10, 11, 12, 13, 14, 15, 16, 17::nat] div nat (multiple_target ?cfg)"
    "\<forall>k < length seqs.
        seqs ! k = step_sample (nat (seq_step ?cfg))
          (take (nat (multiple_target ?cfg))
             (drop (k * nat (multiple_target ?cfg)) [10, 11, 12, 13, 14, 15, 16, 17]))"
    using merged_target_sequences[OF h, of "[10, 11, 12, 13, 14, 15, 16, 17]"] by blast
  have c: "nat (seq_step ?cfg) = 2" "nat (multiple_target ?cfg) = 3"
    by (simp_all add: default_config_def)
  have e0: "step_sample 2 [10, 11, 12::nat] = [10, 12]" by code_simp
  have e1: "step_sample 2 [13, 14, 15::nat] = [13, 15]" by code_simp
  have len: "length seqs = 2" using seqs(2) unfolding c by simp
  have "seqs ! 0 = [10, 12]"
    using seqs(3) len unfolding c by (simp add: e0)
  moreover have "seqs ! 1 = [13, 15]"
    using seqs(3) len unfolding c by (simp add: e1)
  ultimately show ?thesis using seqs(1) len by blast
qed

section \<open>The reduction of the dataset\<close>

lemma randint_low_ok: "randint_ok randint_low"
  by (simp add: randint_ok_def randint_low_def)

lemma randint_high_ok: "randint_ok randint_high"
  by (simp add: randint_ok_def randint_high_def)

lemma exact_mul_ok: "fmul_ok exact_mul"
  by (simp add: fmul_ok_def exact_mul_def mult_left_le)

lemma py_int_bounds:
  assumes "0 \<le> q" "q \<le> of_int n"
  shows "0 \<le> py_int q \<and> py_int q \<le> n"
proof -
  have "py_int q = \<lfloor>q\<rfloor>" using assms(1) by (simp add: py_int_def)
  moreover have "0 \<le> \<lfloor>q\<rfloor>" using assms(1) by simp
  moreover have "\<lfloor>q\<rfloor> \<le> n" using assms(2) by (simp add: floor_le_iff)
  ultimately show ?thesis by simp
qed

lemma reduce_dataset_slice:
  assumes "randint_ok randint"
    and "0 \<le> py_int (fmul (int (length xs)) (subset_frac cfg))"
    and "py_int (fmul (int (length xs)) (subset_frac cfg)) \<le> int (length xs)"
  shows "\<exists>start. start + nat (py_int (fmul (int (length xs)) (subset_frac cfg))) \<le> length xs \<and>
           int start = randint 0 (int (length xs) - py_int (fmul (int (length xs)) (subset_frac cfg)) + 1) \<and>
           reduce_dataset fmul randint cfg xs =
             Inr (take (nat (py_int (fmul (int (length xs)) (subset_frac cfg)))) (drop start xs))"
proof -
  define total where "total = int (length xs)"
  define size where "size = py_int (fmul total (subset_frac cfg))"
  define r where "r = randint 0 (total - size + 1)"
  have sz: "0 \<le> size" "size \<le> total" using assms(2,3) by (simp_all add: size_def total_def)
  then have "0 < total - size + 1" by linarith
  then have r: "0 \<le> r" "r < total - size + 1"
    using assms(1) unfolding randint_ok_def r_def by blast+
  have "py_slice xs r (r + size) 1 = Inr (take (nat (r + size - r)) (drop (nat r) xs))"
    using r sz by (intro py_slice_unit) (simp_all add: total_def)
  then have "reduce_dataset fmul randint cfg xs = Inr (take (nat size) (drop (nat r) xs))"
    using sz unfolding reduce_dataset_def Let_def total_def[symmetric] size_def[symmetric] r_def[symmetric]
    by simp
  moreover have "nat r + nat size \<le> length xs" using r sz by (simp add: total_def)
  moreover have "int (nat r) = r" using r by simp
  ultimately show ?thesis
    unfolding total_def[symmetric] size_def[symmetric] r_def[symmetric] by blast
qed


lemma four_frames_all: "all_sequences subset_config four_frames = Inr [[0], [1], [2], [3]]"
  by code_simp

lemma four_frames_low:
  "get_sequence_indices exact_mul randint_low subset_config four_frames = Inr [[0]]"
  by code_simp

lemma four_frames_high:
  "get_sequence_indices exact_mul randint_high subset_config four_frames = Inr [[3]]"
  by code_simp

text \<open>
  Claim C5, as stated, fails: the kept slice has \<open>int(total * subset_frac)\<close> sequences,
  the product truncated, not rounded. Four sequences and \<open>subset_frac = 7/16\<close> (the product
  1.75 is exact in double precision) keep one sequence, not two.
\<close>

theorem subset_size_counterexample:
  "all_sequences subset_config four_frames = Inr [[0], [1], [2], [3]] \<and>
   subset_frac subset_config < 1 \<and>
   get_sequence_indices exact_mul randint_low subset_config four_frames = Inr [[0]] \<and>
   int (length [[0::nat]]) \<noteq>
     round (exact_mul (int (length [[0::nat], [1], [2], [3]])) (subset_frac subset_config))"
proof -
  have "subset_frac subset_config < 1"
    by (simp add: subset_config_def default_config_def)
  moreover have "round (exact_mul (int (length [[0::nat], [1], [2], [3]])) (subset_frac subset_config)) = 2"
    by code_simp
  ultimately show ?thesis using four_frames_all four_frames_low by simp
qed

text \<open>
  Claim C5, amended. For \<open>0 \<le> subset_frac < 1\<close> the result is a contiguous slice of the
  concatenated list, in the same order: \<open>size = int(total * subset_frac)\<close> sequences (the
  float product truncated towards zero) from the position that \<^verbatim>\<open>np.random.randint\<close> draws
  in \<open>0 .. total - size\<close>.
\<close>

theorem subset_is_contiguous_slice:
  assumes "randint_ok randint" "fmul_ok fmul"
    and "0 \<le> subset_frac cfg" "subset_frac cfg < 1"
    and "all_sequences cfg imgnames = Inr full"
  shows "\<exists>start. start + nat (py_int (fmul (int (length full)) (subset_frac cfg))) \<le> length full \<and>
           int start =
             randint 0 (int (length full) - py_int (fmul (int (length full)) (subset_frac cfg)) + 1) \<and>
           get_sequence_indices fmul randint cfg imgnames =
             Inr (take (nat (py_int (fmul (int (length full)) (subset_frac cfg)))) (drop start full)) \<and>
           length (take (nat (py_int (fmul (int (length full)) (subset_frac cfg)))) (drop start full)) =
             nat (py_int (fmul (int (length full)) (subset_frac cfg)))"
proof -
  let ?size = "py_int (fmul (int (length full)) (subset_frac cfg))"
  have "0 \<le> fmul (int (length full)) (subset_frac cfg) \<and>
        fmul (int (length full)) (subset_frac cfg) \<le> of_int (int (length full))"
    using assms(2,3,4) unfolding fmul_ok_def by (meson of_nat_0_le_iff order_less_imp_le)
  then have sz: "0 \<le> ?size \<and> ?size \<le> int (length full)" by (intro py_int_bounds) simp_all
  then obtain start where start: "start + nat ?size \<le> length full"
    "int start = randint 0 (int (length full) - ?size + 1)"
    "reduce_dataset fmul randint cfg full = Inr (take (nat ?size) (drop start full))"
    using reduce_dataset_slice[OF assms(1), of fmul full cfg] by blast
  have "get_sequence_indices fmul randint cfg imgnames = Inr (take (nat ?size) (drop start full))"
    using assms(5) start(3) by (simp add: get_sequence_indices_def)
  moreover have "length (take (nat ?size) (drop start full)) = nat ?size"
    using start(1) by simp
  ultimately show ?thesis using start(1,2) by blast
qed

theorem subset_is_contiguous_slice_witness:
  "\<exists>start. start + 1 \<le> 4 \<and>
     get_sequence_indices exact_mul randint_high subset_config four_frames =
       Inr (take 1 (drop start [[0], [1], [2], [3]]))"
proof -
  have frac: "0 \<le> subset_frac subset_config" "subset_frac subset_config < 1"
    by (simp_all add: subset_config_def default_config_def)
  have size: "nat (py_int (exact_mul (int (length [[0::nat], [1], [2], [3]])) (subset_frac subset_config))) = 1"
    by code_simp
  obtain start where
    "start + nat (py_int (exact_mul (int (length [[0::nat], [1], [2], [3]])) (subset_frac subset_config)))
       \<le> length [[0::nat], [1], [2], [3]]"
    "get_sequence_indices exact_mul randint_high subset_config four_frames =
       Inr (take (nat (py_int (exact_mul (int (length [[0::nat], [1], [2], [3]])) (subset_frac subset_config))))
         (drop start [[0], [1], [2], [3]]))"
    using subset_is_contiguous_slice[OF randint_high_ok exact_mul_ok frac four_frames_all]
    by blast
  then have "start + 1 \<le> 4"
    "get_sequence_indices exact_mul randint_high subset_config four_frames =
       Inr (take 1 (drop start [[0], [1], [2], [3]]))"
    unfolding size by simp_all
  then show ?thesis by blast
qed


text \<open>
  Claim C6, as stated, fails: with \<open>subset_frac = 7/16\<close> and four sequences, a run whose
  random source draws the start 0 and a run whose source draws 3 return different lists.
\<close>

theorem random_start_counterexample:
  "randint_ok randint_low \<and> randint_ok randint_high \<and>
   get_sequence_indices exact_mul randint_low subset_config four_frames = Inr [[0]] \<and>
   get_sequence_indices exact_mul randint_high subset_config four_frames = Inr [[3]] \<and>
   get_sequence_indices exact_mul randint_low subset_config four_frames \<noteq>
     get_sequence_indices exact_mul randint_high subset_config four_frames"
  using randint_low_ok randint_high_ok four_frames_low four_frames_high by simp

text \<open>
  Claim C6, amended. When nothing is cut (\<open>subset_frac = 1\<close>, the default, where the float
  product \<open>n * 1.0\<close> is \<open>n\<close>), the only start that can be drawn is 0: two runs on the same
  table and configuration return the same result, the whole list, whatever the random
  source; with a smaller \<open>subset_frac\<close> the result depends on the start drawn.
\<close>

theorem full_dataset_deterministic:
  assumes "randint_ok r1" "randint_ok r2"
    and "subset_frac cfg = 1" "\<forall>n. fmul n 1 = of_int n"
  shows "get_sequence_indices fmul r1 cfg imgnames = get_sequence_indices fmul r2 cfg imgnames \<and>
         get_sequence_indices fmul r1 cfg imgnames = all_sequences cfg imgnames"
proof (cases "all_sequences cfg imgnames")
  case (Inl e)
  then show ?thesis by (simp add: get_sequence_indices_def)
next
  case (Inr full)
  have size: "py_int (fmul (int (length full)) (subset_frac cfg)) = int (length full)"
    using assms(3,4) by (simp add: py_int_def)
  have "reduce_dataset fmul r1 cfg full = Inr full"
    using assms(1) size by (rule reduce_dataset_full)
  moreover have "reduce_dataset fmul r2 cfg full = Inr full"
    using assms(2) size by (rule reduce_dataset_full)
  ultimately show ?thesis using Inr by (simp add: get_sequence_indices_def)
qed

theorem full_dataset_deterministic_witness:
  "get_sequence_indices exact_mul randint_low default_config ten_frames =
     get_sequence_indices exact_mul randint_high default_config ten_frames \<and>
   get_sequence_indices exact_mul randint_low default_config ten_frames =
     all_sequences default_config ten_frames"
proof -
  have "subset_frac default_config = 1" by (simp add: default_config_def)
  moreover have "\<forall>n. exact_mul n 1 = of_int n" by (simp add: exact_mul_def)
  ultimately show ?thesis
    using full_dataset_deterministic[OF randint_low_ok randint_high_ok] by blast
qed

section \<open>Parsing image names\<close>

lemma split_once_Some:
  "split_once sep s = Some (a, b) \<longleftrightarrow> s = a @ sep # b \<and> sep \<notin> set a"
proof
  assume h: "split_once sep s = Some (a, b)"
  then have mem: "sep \<in> set s"
    and a: "a = takeWhile (\<lambda>c. c \<noteq> sep) s"
    and b: "b = tl (dropWhile (\<lambda>c. c \<noteq> sep) s)"
    by (auto simp: split_once_def split: if_splits)
  from mem have ne: "dropWhile (\<lambda>c. c \<noteq> sep) s \<noteq> []" by (simp add: dropWhile_eq_Nil_conv)
  then have "hd (dropWhile (\<lambda>c. c \<noteq> sep) s) = sep" using hd_dropWhile[of "\<lambda>c. c \<noteq> sep" s] by simp
  then have "dropWhile (\<lambda>c. c \<noteq> sep) s = sep # b" using ne b by (metis list.collapse)
  then have "s = a @ sep # b" using a by (metis takeWhile_dropWhile_id)
  moreover have "sep \<notin> set a" unfolding a by (metis (mono_tags, lifting) set_takeWhileD)
  ultimately show "s = a @ sep # b \<and> sep \<notin> set a" by simp
next
  assume h: "s = a @ sep # b \<and> sep \<notin> set a"
  then have s: "s = a @ sep # b" and a: "\<And>c. c \<in> set a \<Longrightarrow> c \<noteq> sep" by auto
  have "takeWhile (\<lambda>c. c \<noteq> sep) (a @ sep # b) = a @ takeWhile (\<lambda>c. c \<noteq> sep) (sep # b)"
    using a by (rule takeWhile_append2)
  then have "takeWhile (\<lambda>c. c \<noteq> sep) s = a" using s by simp
  moreover have "dropWhile (\<lambda>c. c \<noteq> sep) (a @ sep # b) = dropWhile (\<lambda>c. c \<noteq> sep) (sep # b)"
    using a by (rule dropWhile_append2)
  then have "dropWhile (\<lambda>c. c \<noteq> sep) s = sep # b" using s by simp
  moreover have "sep \<in> set s" using h by simp
  ultimately show "split_once sep s = Some (a, b)" by (simp add: split_once_def)
qed

lemma parse_h36m_imgname_Inr:
  "parse_h36m_imgname imgname = Inr (subj, action, camera) \<longleftrightarrow>
     (\<exists>rest. basename imgname = subj @ CHR ''_'' # action @ CHR ''.'' # camera @ CHR ''_'' # rest \<and>
        CHR ''_'' \<notin> set subj \<and> CHR ''.'' \<notin> set action \<and> CHR ''_'' \<notin> set camera)"
proof
  assume "parse_h36m_imgname imgname = Inr (subj, action, camera)"
  then obtain r1 r2 r3 where
    "split_once CHR ''_'' (basename imgname) = Some (subj, r1)"
    "split_once CHR ''.'' r1 = Some (action, r2)"
    "split_once CHR ''_'' r2 = Some (camera, r3)"
    by (auto simp: parse_h36m_imgname_def split: option.splits)
  then show "\<exists>rest. basename imgname = subj @ CHR ''_'' # action @ CHR ''.'' # camera @ CHR ''_'' # rest \<and>
        CHR ''_'' \<notin> set subj \<and> CHR ''.'' \<notin> set action \<and> CHR ''_'' \<notin> set camera"
    by (auto simp: split_once_Some)
next
  assume "\<exists>rest. basename imgname = subj @ CHR ''_'' # action @ CHR ''.'' # camera @ CHR ''_'' # rest \<and>
        CHR ''_'' \<notin> set subj \<and> CHR ''.'' \<notin> set action \<and> CHR ''_'' \<notin> set camera"
  then obtain rest where b: "basename imgname = subj @ CHR ''_'' # (action @ CHR ''.'' # (camera @ CHR ''_'' # rest))"
    and n: "CHR ''_'' \<notin> set subj" "CHR ''.'' \<notin> set action" "CHR ''_'' \<notin> set camera"
    by auto
  have 1: "split_once CHR ''_'' (basename imgname) = Some (subj, action @ CHR ''.'' # (camera @ CHR ''_'' # rest))"
    using b n(1) by (simp only: split_once_Some) simp
  have 2: "split_once CHR ''.'' (action @ CHR ''.'' # (camera @ CHR ''_'' # rest)) = Some (action, camera @ CHR ''_'' # rest)"
    using n(2) by (simp only: split_once_Some) simp
  have 3: "split_once CHR ''_'' (camera @ CHR ''_'' # rest) = Some (camera, rest)"
    using n(3) by (simp only: split_once_Some) simp
  show "parse_h36m_imgname imgname = Inr (subj, action, camera)"
    by (simp add: parse_h36m_imgname_def 1 2 3)
qed

lemma parse_h36m_imgname_Inl:
  "parse_h36m_imgname imgname = Inl e \<Longrightarrow> e = ValueError"
  by (auto simp: parse_h36m_imgname_def split: option.splits)

lemma parse_h36m_imgname_fails:
  "(\<nexists>key. parse_h36m_imgname imgname = Inr key) \<Longrightarrow> parse_h36m_imgname imgname = Inl ValueError"
  by (cases "parse_h36m_imgname imgname") (auto dest: parse_h36m_imgname_Inl)

lemma video_frames_fails:
  "imgname \<in> set imgnames \<Longrightarrow> parse_h36m_imgname imgname = Inl ValueError \<Longrightarrow>
     video_frames imgnames idx vf = Inl ValueError"
proof (induction imgnames arbitrary: idx vf)
  case Nil
  then show ?case by simp
next
  case (Cons x xs)
  show ?case
  proof (cases "parse_h36m_imgname x")
    case (Inl e)
    then show ?thesis using parse_h36m_imgname_Inl[OF Inl] by simp
  next
    case (Inr key)
    then have "imgname \<in> set xs" using Cons.prems by auto
    then show ?thesis using Cons.IH Cons.prems(2) Inr by simp
  qed
qed

text \<open>
  Claim C10. The parse returns (subject, action, camera) exactly for the names whose
  basename is a subject without underscore, an underscore, an action without dot, a dot,
  a camera without underscore, an underscore and a remainder; for every other name it
  fails with the \<^verbatim>\<open>ValueError\<close> of the unpacking, and so do \<^verbatim>\<open>get_camera_param\<close> on that
  name and \<^verbatim>\<open>get_sequence_indices\<close> on a table that holds it. \<^verbatim>\<open>foo.jpg\<close> is such a name.
\<close>

theorem parse_h36m_imgname_partial:
  "(parse_h36m_imgname imgname = Inr (subj, action, camera) \<longleftrightarrow>
      (\<exists>rest. basename imgname = subj @ CHR ''_'' # action @ CHR ''.'' # camera @ CHR ''_'' # rest \<and>
         CHR ''_'' \<notin> set subj \<and> CHR ''.'' \<notin> set action \<and> CHR ''_'' \<notin> set camera)) \<and>
   ((\<nexists>key. parse_h36m_imgname imgname = Inr key) \<longrightarrow>
      parse_h36m_imgname imgname = Inl ValueError \<and>
      get_camera_param (Some table) imgname = Inl ValueError \<and>
      (imgname \<in> set imgnames \<longrightarrow>
         get_sequence_indices fmul randint cfg imgnames = Inl ValueError)) \<and>
   parse_h36m_imgname ''foo.jpg'' = Inl ValueError"
proof (intro conjI impI)
  show "parse_h36m_imgname imgname = Inr (subj, action, camera) \<longleftrightarrow>
      (\<exists>rest. basename imgname = subj @ CHR ''_'' # action @ CHR ''.'' # camera @ CHR ''_'' # rest \<and>
         CHR ''_'' \<notin> set subj \<and> CHR ''.'' \<notin> set action \<and> CHR ''_'' \<notin> set camera)"
    by (rule parse_h36m_imgname_Inr)
next
  assume "\<nexists>key. parse_h36m_imgname imgname = Inr key"
  then show "parse_h36m_imgname imgname = Inl ValueError" by (rule parse_h36m_imgname_fails)
next
  assume "\<nexists>key. parse_h36m_imgname imgname = Inr key"
  then have "parse_h36m_imgname imgname = Inl ValueError" by (rule parse_h36m_imgname_fails)
  then show "get_camera_param (Some table) imgname = Inl ValueError"
    by (simp add: get_camera_param_def)
next
  assume "\<nexists>key. parse_h36m_imgname imgname = Inr key" and mem: "imgname \<in> set imgnames"
  then have "parse_h36m_imgname imgname = Inl ValueError" by (intro parse_h36m_imgname_fails)
  then have "video_frames imgnames 0 [] = Inl ValueError" using mem by (intro video_frames_fails)
  then show "get_sequence_indices fmul randint cfg imgnames = Inl ValueError"
    by (simp add: get_sequence_indices_def all_sequences_def)
next
  show "parse_h36m_imgname ''foo.jpg'' = Inl ValueError" by code_simp
qed

theorem parse_h36m_imgname_partial_witness:
  "parse_h36m_imgname ''S1/S1_Directions_1.54138969_000001.jpg'' = Inr (''S1'', ''Directions_1'', ''54138969'') \<and>
   basename ''S1/S1_Directions_1.54138969_000001.jpg'' = ''S1_Directions_1.54138969_000001.jpg'' \<and>
   parse_h36m_imgname ''S1_Directions.jpg'' = Inl ValueError \<and>
   get_camera_param (Some (Map.empty :: (string \<times> string) \<rightharpoonup> nat)) ''S1_Directions.jpg'' = Inl ValueError \<and>
   get_sequence_indices exact_mul randint_low default_config [''S1_A.1_0.jpg'', ''S1_Directions.jpg''] = Inl ValueError"
proof -
  have none: "\<nexists>key. parse_h36m_imgname ''S1_Directions.jpg'' = Inr key"
  proof -
    have "parse_h36m_imgname ''S1_Directions.jpg'' = Inl ValueError" by code_simp
    then show ?thesis by simp
  qed
  have mem: "''S1_Directions.jpg'' \<in> set [''S1_A.1_0.jpg'', ''S1_Directions.jpg'']" by simp
  have b: "basename ''S1/S1_Directions_1.54138969_000001.jpg'' = ''S1_Directions_1.54138969_000001.jpg''"
    by code_simp
  have split: "basename ''S1/S1_Directions_1.54138969_000001.jpg'' =
      ''S1'' @ CHR ''_'' # ''Directions_1'' @ CHR ''.'' # ''54138969'' @ CHR ''_'' # ''000001.jpg'' \<and>
      CHR ''_'' \<notin> set ''S1'' \<and> CHR ''.'' \<notin> set ''Directions_1'' \<and> CHR ''_'' \<notin> set ''54138969''"
    unfolding b by simp
  have ok: "parse_h36m_imgname ''S1/S1_Directions_1.54138969_000001.jpg'' = Inr (''S1'', ''Directions_1'', ''54138969'')"
    using parse_h36m_imgname_partial[of "''S1/S1_Directions_1.54138969_000001.jpg''" "''S1''" "''Directions_1''" "''54138969''"]
      split by blast
  show ?thesis
    using ok b none mem
      parse_h36m_imgname_partial[of "''S1_Directions.jpg''" _ _ _ "Map.empty :: (string \<times> string) \<rightharpoonup> nat"
        "[''S1_A.1_0.jpg'', ''S1_Directions.jpg'']" exact_mul randint_low default_config]
    by blast
qed

section \<open>Sequences stay within one video\<close>

lemma traverse_member:
  "traverse f xs = Inr ys \<Longrightarrow> y \<in> set ys \<Longrightarrow> \<exists>x \<in> set xs. f x = Inr y"
proof (induction xs arbitrary: ys)
  case Nil
  then show ?case by simp
next
  case (Cons x xs)
  from Cons.prems(1) obtain z zs where z: "f x = Inr z" and zs: "traverse f xs = Inr zs"
    and ys: "ys = z # zs"
    by (auto split: sum.splits)
  show ?case
  proof (cases "y = z")
    case True
    then show ?thesis using z by simp
  next
    case False
    then have "y \<in> set zs" using Cons.prems(2) ys by simp
    then show ?thesis using Cons.IH[OF zs] by auto
  qed
qed

lemma append_frame_member:
  "(k, frames) \<in> set (append_frame key idx vf) \<Longrightarrow>
     (k, frames) \<in> set vf \<or>
     (k = key \<and> (frames = [idx] \<or> (\<exists>old. (key, old) \<in> set vf \<and> frames = old @ [idx])))"
proof (induction vf)
  case Nil
  then show ?case by simp
next
  case (Cons p vf)
  obtain k' old where p: "p = (k', old)" by (cases p)
  show ?case
  proof (cases "k' = key")
    case True
    then have "(k, frames) = (key, old @ [idx]) \<or> (k, frames) \<in> set vf"
      using Cons.prems p by simp
    then show ?thesis using p True by auto
  next
    case False
    then have "(k, frames) = (k', old) \<or> (k, frames) \<in> set (append_frame key idx vf)"
      using Cons.prems p by simp
    then show ?thesis using Cons.IH p by auto
  qed
qed

lemma append_frame_invariant:
  assumes "\<forall>(k, frames) \<in> set vf. frames_of_video imgnames idx k frames"
    and "parse_h36m_imgname (imgnames ! idx) = Inr key"
  shows "\<forall>(k, frames) \<in> set (append_frame key idx vf). frames_of_video imgnames (Suc idx) k frames"
proof -
  have old: "frames_of_video imgnames idx k frames" if "(k, frames) \<in> set vf" for k frames
    using assms(1) that by blast
  have "frames_of_video imgnames (Suc idx) k frames"
    if mem: "(k, frames) \<in> set (append_frame key idx vf)" for k frames
  proof -
    from append_frame_member[OF mem]
    consider "(k, frames) \<in> set vf" | "k = key" "frames = [idx]"
      | prev where "k = key" "(key, prev) \<in> set vf" "frames = prev @ [idx]"
      by blast
    then show ?thesis
    proof cases
      case 1
      then have "frames_of_video imgnames idx k frames" by (rule old)
      then show ?thesis unfolding frames_of_video_def by (meson less_Suc_eq)
    next
      case 2
      then show ?thesis using assms(2) by (simp add: frames_of_video_def)
    next
      case 3
      have p: "sorted prev" "\<forall>i \<in> set prev. i < idx \<and> parse_h36m_imgname (imgnames ! i) = Inr key"
        using old[OF 3(2)] unfolding frames_of_video_def by simp_all
      then have "\<forall>i \<in> set prev. i \<le> idx" by (meson less_imp_le)
      then have "sorted (prev @ [idx])" using p(1) by (simp add: sorted_append)
      moreover have "\<forall>i \<in> set (prev @ [idx]). i < Suc idx \<and> parse_h36m_imgname (imgnames ! i) = Inr key"
        using p(2) assms(2) by (simp add: less_Suc_eq)
      ultimately show ?thesis using 3(1,3) unfolding frames_of_video_def by simp
    qed
  qed
  then show ?thesis by blast
qed

lemma video_frames_invariant:
  assumes "video_frames rest idx vf = Inr vf'"
    and "rest = drop idx imgnames" "idx \<le> length imgnames"
    and "\<forall>(k, frames) \<in> set vf. frames_of_video imgnames idx k frames"
  shows "\<forall>(k, frames) \<in> set vf'. frames_of_video imgnames (length imgnames) k frames"
  using assms
proof (induction rest arbitrary: idx vf)
  case Nil
  then have "idx = length imgnames" by simp
  moreover have "vf' = vf" using Nil.prems(1) by simp
  ultimately show ?case using Nil.prems(4) by simp
next
  case (Cons x xs)
  have idx: "idx < length imgnames"
  proof (rule ccontr)
    assume "\<not> idx < length imgnames"
    then have "drop idx imgnames = []" by simp
    then show False using Cons.prems(2) by simp
  qed
  have "drop idx imgnames = imgnames ! idx # drop (Suc idx) imgnames"
    using idx by (rule Cons_nth_drop_Suc[symmetric])
  then have x: "x = imgnames ! idx" and xs: "xs = drop (Suc idx) imgnames"
    using Cons.prems(2) by simp_all
  from Cons.prems(1) obtain key where key: "parse_h36m_imgname x = Inr key"
    and run: "video_frames xs (Suc idx) (append_frame key idx vf) = Inr vf'"
    by (auto split: sum.splits)
  have "\<forall>(k, frames) \<in> set (append_frame key idx vf). frames_of_video imgnames (Suc idx) k frames"
    using Cons.prems(4) key x by (intro append_frame_invariant) simp_all
  moreover have "Suc idx \<le> length imgnames" using idx by simp
  ultimately show ?case using Cons.IH[OF run xs] by blast
qed


lemma slices_sorted_subset:
  assumes "0 < step" "traverse (\<lambda>i. py_slice xs (a i) (b i) step) starts = Inr seqs"
    and "seq \<in> set seqs" "sorted xs"
  shows "sorted seq \<and> set seq \<subseteq> set xs"
proof -
  obtain i where "py_slice xs (a i) (b i) step = Inr seq"
    using traverse_member[OF assms(2,3)] by blast
  then show ?thesis
    using py_slice_pos_sorted[OF assms(1) _ assms(4)] py_slice_pos_subset[OF assms(1)] by blast
qed

lemma sorted_padding:
  fixes mid :: "nat list"
  assumes "sorted mid" "\<forall>x \<in> set mid. lo \<le> x \<and> x \<le> hi" "lo \<le> hi"
  shows "sorted (replicate pl lo @ mid @ replicate pr hi)"
  using assms by (auto simp: sorted_append)

lemma padded_sequence_sorted_subset:
  assumes "0 < seq_step cfg" "padded_sequence cfg xs i = Inr seq" "sorted xs"
  shows "sorted seq \<and> set seq \<subseteq> set xs"
proof -
  from assms(1,2) have ne: "xs \<noteq> []"
    by (auto simp: padded_sequence_def Let_def split: if_splits)
  from assms(1,2) ne obtain pl pr start stop mid where
    mid: "py_slice xs start stop (seq_step cfg) = Inr mid"
    and seq: "seq = replicate pl (xs ! 0) @ mid @ replicate pr (last xs)"
    unfolding padded_sequence_def Let_def
    by (auto split: if_splits sum.splits)
  have m: "sorted mid" "set mid \<subseteq> set xs"
    using py_slice_pos_sorted[OF assms(1) mid assms(3)] py_slice_pos_subset[OF assms(1) mid]
    by simp_all
  have lo: "xs ! 0 \<le> x" if "x \<in> set xs" for x
  proof -
    from that have "\<exists>j<length xs. xs ! j = x" by (simp only: in_set_conv_nth)
    then obtain j where j: "j < length xs" "xs ! j = x" by blast
    have "0 \<le> j" by simp
    with assms(3) have "xs ! 0 \<le> xs ! j" using j(1) by (rule sorted_nth_mono)
    then show ?thesis unfolding j(2) .
  qed
  have hi: "x \<le> last xs" if "x \<in> set xs" for x
  proof -
    from that have "\<exists>j<length xs. xs ! j = x" by (simp only: in_set_conv_nth)
    then obtain j where j: "j < length xs" "xs ! j = x" by blast
    have l: "last xs = xs ! (length xs - 1)" using ne by (rule last_conv_nth)
    have "j \<le> length xs - 1" "length xs - 1 < length xs" using j(1) by simp_all
    with assms(3) have "xs ! j \<le> xs ! (length xs - 1)" by (rule sorted_nth_mono)
    then show ?thesis unfolding j(2) l .
  qed
  have first: "xs ! 0 \<in> set xs" and final: "last xs \<in> set xs" using ne by simp_all
  have "sorted seq"
    unfolding seq using m lo hi first by (intro sorted_padding) auto
  moreover have "set seq \<subseteq> set xs"
    unfolding seq using m(2) first final by auto
  ultimately show ?thesis by simp
qed

lemma seqs_from_video_sorted_subset:
  assumes "1 \<le> seq_step cfg" "seqs_from_video cfg xs = Inr seqs" "seq \<in> set seqs" "sorted xs"
  shows "sorted seq \<and> set seq \<subseteq> set xs"
proof -
  have step: "0 < seq_step cfg" using assms(1) by simp
  consider (merged) "multiple_target cfg \<noteq> 0"
    | (padded) "multiple_target cfg = 0" "pad_video_seq cfg"
    | (sliding) "multiple_target cfg = 0" "\<not> pad_video_seq cfg"
    by blast
  then show ?thesis
  proof cases
    case merged
    then have "seqs_multiple_target cfg xs = Inr seqs" using assms(2) by (simp add: seqs_from_video_def)
    then obtain starts seqs0 where
      t: "traverse (\<lambda>i. py_slice xs i (i + multiple_target cfg) (seq_step cfg)) starts = Inr seqs0"
      and cut: "py_slice seqs0 0 (int (length xs) div multiple_target cfg) 1 = Inr seqs"
      unfolding seqs_multiple_target_def Let_def by (auto split: sum.splits)
    have "set seqs \<subseteq> set seqs0" using cut by (intro py_slice_pos_subset[of 1]) simp_all
    then have "seq \<in> set seqs0" using assms(3) by blast
    then show ?thesis
      using step t assms(4)
      by (intro slices_sorted_subset[where a = "\<lambda>i. i" and b = "\<lambda>i. i + multiple_target cfg"])
  next
    case padded
    then have "seqs_padded cfg xs = Inr seqs" using assms(2) by (simp add: seqs_from_video_def)
    then obtain frames where "traverse (padded_sequence cfg xs) frames = Inr seqs"
      unfolding seqs_padded_def by (auto split: sum.splits)
    then have "\<exists>i \<in> set frames. padded_sequence cfg xs i = Inr seq"
      using assms(3) by (rule traverse_member)
    then obtain i where "padded_sequence cfg xs i = Inr seq" by blast
    then show ?thesis using step assms(4) by (intro padded_sequence_sorted_subset)
  next
    case sliding
    then have "seqs_sliding cfg xs = Inr seqs" using assms(2) by (simp add: seqs_from_video_def)
    then obtain starts where
      "traverse (\<lambda>i. py_slice xs i (i + ((seq_len cfg - 1) * seq_step cfg + 1)) (seq_step cfg)) starts
         = Inr seqs"
      unfolding seqs_sliding_def Let_def by (auto split: sum.splits)
    then show ?thesis
      using step assms(3,4)
      by (intro slices_sorted_subset[where a = "\<lambda>i. i"
            and b = "\<lambda>i. i + ((seq_len cfg - 1) * seq_step cfg + 1)"])
  qed
qed


lemma all_sequences_member:
  assumes "all_sequences cfg imgnames = Inr full" "seq \<in> set full"
  shows "\<exists>key frames seqs. frames_of_video imgnames (length imgnames) key frames \<and>
           seqs_from_video cfg frames = Inr seqs \<and> seq \<in> set seqs"
proof -
  from assms(1) obtain vf per_video where vf: "video_frames imgnames 0 [] = Inr vf"
    and t: "traverse (\<lambda>(key, indices). seqs_from_video cfg indices) (sort_key fst vf) = Inr per_video"
    and full: "full = concat per_video"
    unfolding all_sequences_def by (auto split: sum.splits)
  from assms(2) full obtain seqs where seqs: "seqs \<in> set per_video" "seq \<in> set seqs" by auto
  have "\<exists>p \<in> set (sort_key fst vf). (\<lambda>(key, indices). seqs_from_video cfg indices) p = Inr seqs"
    using t seqs(1) by (rule traverse_member)
  then obtain key frames where p: "(key, frames) \<in> set vf" "seqs_from_video cfg frames = Inr seqs"
    by auto
  have "\<forall>(k, frames) \<in> set vf. frames_of_video imgnames (length imgnames) k frames"
    using vf by (rule video_frames_invariant) simp_all
  then have "frames_of_video imgnames (length imgnames) key frames" using p(1) by blast
  then show ?thesis using p(2) seqs(2) by blast
qed

lemma reduce_dataset_subset:
  assumes "reduce_dataset fmul randint cfg full = Inr seqs"
  shows "set seqs \<subseteq> set full"
proof -
  from assms obtain a b where "py_slice full a b 1 = Inr seqs"
    unfolding reduce_dataset_def Let_def by (auto split: if_splits)
  then show ?thesis by (intro py_slice_pos_subset[of 1]) simp_all
qed

lemma adjust_index_bounds_neg:
  "step < 0 \<Longrightarrow> 0 \<le> n \<Longrightarrow> - 1 \<le> adjust_index n step i \<and> adjust_index n step i \<le> n - 1"
  by (simp add: adjust_index_def)

lemma slice_position_bound_neg:
  assumes "step < 0" "k < slice_length s e step"
  shows "e < s + int k * step" and "s + int k * step \<le> s"
proof -
  from assms have es: "e < s" and k: "int k \<le> (s - e - 1) div (- step)"
    by (auto simp: slice_length_def split: if_splits)
  have pos: "0 < - step" using assms(1) by simp
  have "int k * (- step) \<le> (s - e - 1) div (- step) * (- step)"
    using k pos by (intro mult_right_mono) simp_all
  also have "\<dots> \<le> s - e - 1" using pos by (rule div_mult_le_int)
  finally have "int k * (- step) \<le> s - e - 1" .
  then show "e < s + int k * step" by (simp add: algebra_simps)
  have "int k * step \<le> 0" using assms(1) by (intro mult_nonneg_nonpos) simp_all
  then show "s + int k * step \<le> s" by simp
qed

lemma py_slice_subset:
  assumes "py_slice xs a b step = Inr ys"
  shows "set ys \<subseteq> set xs"
proof (cases "0 < step")
  case True
  then show ?thesis using assms by (rule py_slice_pos_subset)
next
  case False
  have "step \<noteq> 0" using assms by (auto simp: py_slice_def)
  then have neg: "step < 0" using False by simp
  let ?n = "int (length xs)"
  let ?s = "adjust_index ?n step a"
  let ?e = "adjust_index ?n step b"
  have ys: "ys = map (\<lambda>k. xs ! nat (?s + int k * step)) [0..<slice_length ?s ?e step]"
    using assms neg by (simp add: py_slice_def Let_def)
  have sb: "?s \<le> ?n - 1" and eb: "- 1 \<le> ?e"
    using adjust_index_bounds_neg[OF neg, of ?n] by simp_all
  have "xs ! nat (?s + int k * step) \<in> set xs" if "k < slice_length ?s ?e step" for k
  proof -
    have "?e < ?s + int k * step" "?s + int k * step \<le> ?s"
      using slice_position_bound_neg[OF neg that] by simp_all
    then have "0 \<le> ?s + int k * step" "?s + int k * step < ?n" using sb eb by linarith+
    then have "nat (?s + int k * step) < length xs" by (simp add: nat_less_iff)
    then show ?thesis by (rule nth_mem)
  qed
  then show ?thesis unfolding ys by auto
qed

lemma slices_subset:
  assumes "traverse (\<lambda>i. py_slice xs (a i) (b i) step) starts = Inr seqs" "seq \<in> set seqs"
  shows "set seq \<subseteq> set xs"
proof -
  have "\<exists>i \<in> set starts. py_slice xs (a i) (b i) step = Inr seq"
    using assms by (rule traverse_member)
  then obtain i where "py_slice xs (a i) (b i) step = Inr seq" by blast
  then show ?thesis by (rule py_slice_subset)
qed

lemma padded_sequence_subset:
  assumes "padded_sequence cfg xs i = Inr seq"
  shows "set seq \<subseteq> set xs"
proof -
  from assms have ne: "xs \<noteq> []"
    by (auto simp: padded_sequence_def Let_def split: if_splits)
  from assms ne obtain pl pr start stop mid where
    mid: "py_slice xs start stop (seq_step cfg) = Inr mid"
    and seq: "seq = replicate pl (xs ! 0) @ mid @ replicate pr (last xs)"
    unfolding padded_sequence_def Let_def
    by (auto split: if_splits sum.splits)
  have "set mid \<subseteq> set xs" using mid by (rule py_slice_subset)
  moreover have "xs ! 0 \<in> set xs" "last xs \<in> set xs" using ne by simp_all
  ultimately show ?thesis unfolding seq by auto
qed

lemma seqs_from_video_subset:
  assumes "seqs_from_video cfg xs = Inr seqs" "seq \<in> set seqs"
  shows "set seq \<subseteq> set xs"
proof -
  consider (merged) "multiple_target cfg \<noteq> 0"
    | (padded) "multiple_target cfg = 0" "pad_video_seq cfg"
    | (sliding) "multiple_target cfg = 0" "\<not> pad_video_seq cfg"
    by blast
  then show ?thesis
  proof cases
    case merged
    then have "seqs_multiple_target cfg xs = Inr seqs" using assms(1) by (simp add: seqs_from_video_def)
    then obtain starts seqs0 where
      t: "traverse (\<lambda>i. py_slice xs i (i + multiple_target cfg) (seq_step cfg)) starts = Inr seqs0"
      and cut: "py_slice seqs0 0 (int (length xs) div multiple_target cfg) 1 = Inr seqs"
      unfolding seqs_multiple_target_def Let_def by (auto split: sum.splits)
    have "set seqs \<subseteq> set seqs0" using cut by (rule py_slice_subset)
    then have "seq \<in> set seqs0" using assms(2) by blast
    with t show ?thesis
      by (rule slices_subset[where a = "\<lambda>i. i" and b = "\<lambda>i. i + multiple_target cfg"])
  next
    case padded
    then have "seqs_padded cfg xs = Inr seqs" using assms(1) by (simp add: seqs_from_video_def)
    then obtain frames where "traverse (padded_sequence cfg xs) frames = Inr seqs"
      unfolding seqs_padded_def by (auto split: sum.splits)
    then have "\<exists>i \<in> set frames. padded_sequence cfg xs i = Inr seq"
      using assms(2) by (rule traverse_member)
    then obtain i where "padded_sequence cfg xs i = Inr seq" by blast
    then show ?thesis by (rule padded_sequence_subset)
  next
    case sliding
    then have "seqs_sliding cfg xs = Inr seqs" using assms(1) by (simp add: seqs_from_video_def)
    then obtain starts where
      "traverse (\<lambda>i. py_slice xs i (i + ((seq_len cfg - 1) * seq_step cfg + 1)) (seq_step cfg)) starts
         = Inr seqs"
      unfolding seqs_sliding_def Let_def by (auto split: sum.splits)
    then show ?thesis
      using assms(2)
      by (rule slices_subset[where a = "\<lambda>i. i"
            and b = "\<lambda>i. i + ((seq_len cfg - 1) * seq_step cfg + 1)"])
  qed
qed

text \<open>
  Claim C7, as stated, fails: nothing rejects a negative \<open>seq_step\<close>, and with
  \<open>seq_len = 3\<close>, \<open>seq_step = -2\<close>, padding and a causal window, the first sequence of a
  video of five frames is \<open>[0, 0, 4, 2, 4, 4]\<close>, which is not in non-decreasing order.
\<close>

theorem negative_step_counterexample:
  "seq_len reversed_config = 3 \<and> seq_step reversed_config = - 2 \<and>
   pad_video_seq reversed_config \<and> causal reversed_config \<and>
   get_sequence_indices exact_mul randint_low reversed_config five_frames =
     Inr [[0, 0, 4, 2, 4, 4], [0, 0, 0, 4, 4, 4], [0, 0, 0, 4, 4], [0, 0, 0, 0, 4], [0, 0, 0, 0]] \<and>
   \<not> sorted [0, 0, 4, 2, 4, 4::nat]"
proof -
  have "get_sequence_indices exact_mul randint_low reversed_config five_frames =
     Inr [[0, 0, 4, 2, 4, 4], [0, 0, 0, 4, 4, 4], [0, 0, 0, 4, 4], [0, 0, 0, 0, 4], [0, 0, 0, 0]]"
    by code_simp
  then show ?thesis by (simp add: reversed_config_def default_config_def)
qed

text \<open>
  Claim C7, amended. For every annotation table and every configuration, each sequence
  that \<^verbatim>\<open>get_sequence_indices\<close> returns holds only indices of frames of one video (their
  names parse to one key); and for every configuration with \<open>seq_step \<ge> 1\<close> the indices
  of each sequence are in non-decreasing order. The frames of a video are grouped in the
  order of their indices, so this is the temporal order of the video.
\<close>

theorem sequences_within_one_video:
  assumes "get_sequence_indices fmul randint cfg imgnames = Inr seqs"
    and "seq \<in> set seqs"
  shows "(\<exists>key. \<forall>i \<in> set seq. i < length imgnames \<and> parse_h36m_imgname (imgnames ! i) = Inr key) \<and>
         (1 \<le> seq_step cfg \<longrightarrow> sorted seq)"
proof -
  from assms(1) obtain full where full: "all_sequences cfg imgnames = Inr full"
    and red: "reduce_dataset fmul randint cfg full = Inr seqs"
    unfolding get_sequence_indices_def by (auto split: sum.splits)
  have "seq \<in> set full" using reduce_dataset_subset[OF red] assms(2) by blast
  then obtain key frames vseqs where v: "frames_of_video imgnames (length imgnames) key frames"
    "seqs_from_video cfg frames = Inr vseqs" "seq \<in> set vseqs"
    using all_sequences_member[OF full] by blast
  have sub: "set seq \<subseteq> set frames" using v(2,3) by (rule seqs_from_video_subset)
  have "\<forall>i \<in> set seq. i < length imgnames \<and> parse_h36m_imgname (imgnames ! i) = Inr key"
    using v(1) sub unfolding frames_of_video_def by blast
  then have one: "\<exists>key. \<forall>i \<in> set seq. i < length imgnames \<and>
      parse_h36m_imgname (imgnames ! i) = Inr key"
    by blast
  have "sorted seq" if "1 \<le> seq_step cfg"
  proof -
    have "sorted frames" using v(1) by (simp add: frames_of_video_def)
    then show ?thesis using seqs_from_video_sorted_subset[OF that v(2,3)] by simp
  qed
  then show ?thesis using one by blast
qed

lemma two_videos_centred:
  "get_sequence_indices exact_mul randint_low centred_config two_videos =
     Inr [[0, 0, 2], [0, 2, 3], [2, 3, 3], [1, 1, 1]]"
  by code_simp

theorem sequences_within_one_video_witness:
  "(\<exists>key. \<forall>i \<in> set [0, 2, 3]. i < length two_videos \<and>
            parse_h36m_imgname (two_videos ! i) = Inr key) \<and>
   sorted [0, 2, 3::nat]"
proof -
  have step: "1 \<le> seq_step centred_config" by (simp add: centred_config_def default_config_def)
  have mem: "[0, 2, 3] \<in> set [[0, 0, 2], [0, 2, 3], [2, 3, 3], [1, 1, 1::nat]]" by simp
  show ?thesis using sequences_within_one_video[OF two_videos_centred mem] step by blast
qed

section \<open>The check of the keypoint source\<close>

lemma init_unsupported:
  "keypoint_2d_src args \<notin> SUPPORTED_keypoint_2d_src \<Longrightarrow>
     init is_abs exists super_init args = Inl (Unsupported_keypoint_2d_src (keypoint_2d_src args))"
  by (simp add: init_def)

lemma resolve_file_error: "resolve_file is_abs dir file = Inl e \<Longrightarrow> e = TypeError"
  by (auto simp: resolve_file_def split: option.splits if_splits)

lemma init_supported:
  assumes "keypoint_2d_src args \<in> SUPPORTED_keypoint_2d_src"
  shows "init is_abs exists super_init args \<noteq> Inl (Unsupported_keypoint_2d_src s)"
proof
  assume a: "init is_abs exists super_init args = Inl (Unsupported_keypoint_2d_src s)"
  show False
  proof (cases "resolve_file is_abs (data_root args) (keypoint_2d_det_file args)")
    case (Inl e)
    then have "e = TypeError" by (rule resolve_file_error)
    then show False using a assms Inl by (simp add: init_def)
  next
    case det: (Inr det_file)
    show False
    proof (cases "resolve_file is_abs (data_root args) (factor_file args)")
      case (Inl e)
      then have "e = TypeError" by (rule resolve_file_error)
      then show False using a assms det Inl by (simp add: init_def)
    next
      case (Inr factor)
      then show False using a assms det
        by (simp add: init_def split: if_splits option.splits)
    qed
  qed
qed

text \<open>
  Claim C8. The constructor fails with the error for an unsupported keypoint source
  exactly when \<open>keypoint_2d_src\<close> is not one of \<open>gt\<close>, \<open>detection\<close> and \<open>pipeline\<close>; it
  then fails at once, whatever the files and the base class do, and returns no dataset
  from which a sample could be taken.
\<close>

theorem init_checks_keypoint_2d_src:
  "((\<exists>s. init is_abs exists super_init args = Inl (Unsupported_keypoint_2d_src s)) \<longleftrightarrow>
      keypoint_2d_src args \<notin> {''gt'', ''detection'', ''pipeline''}) \<and>
   (keypoint_2d_src args \<notin> {''gt'', ''detection'', ''pipeline''} \<longrightarrow>
      init is_abs exists super_init args = Inl (Unsupported_keypoint_2d_src (keypoint_2d_src args)) \<and>
      (\<nexists>dataset. init is_abs exists super_init args = Inr dataset))"
proof -
  have S: "SUPPORTED_keypoint_2d_src = {''gt'', ''detection'', ''pipeline''}"
    by (rule SUPPORTED_keypoint_2d_src_def)
  have 1: "init is_abs exists super_init args = Inl (Unsupported_keypoint_2d_src (keypoint_2d_src args))"
    if "keypoint_2d_src args \<notin> {''gt'', ''detection'', ''pipeline''}"
    using that unfolding S[symmetric] by (rule init_unsupported)
  have 2: "keypoint_2d_src args \<notin> {''gt'', ''detection'', ''pipeline''}"
    if "init is_abs exists super_init args = Inl (Unsupported_keypoint_2d_src s)" for s
    using that init_supported[of args is_abs exists super_init s] unfolding S by blast
  show ?thesis using 1 2 by (metis sum.distinct(1))
qed

theorem init_checks_keypoint_2d_src_witness:
  "init (\<lambda>f. True) (\<lambda>f. True) (\<lambda>a. Some ()) unknown_src_args =
     Inl (Unsupported_keypoint_2d_src ''ground_truth'') \<and>
   (\<nexists>s. init (\<lambda>f. True) (\<lambda>f. True) (\<lambda>a. Some ()) default_args =
     Inl (Unsupported_keypoint_2d_src s))"
proof -
  have u: "keypoint_2d_src unknown_src_args \<notin> {''gt'', ''detection'', ''pipeline''}"
    "keypoint_2d_src unknown_src_args = ''ground_truth''"
    by (simp_all add: unknown_src_args_def default_args_def)
  have d: "\<not> keypoint_2d_src default_args \<notin> {''gt'', ''detection'', ''pipeline''}"
    by (simp add: default_args_def)
  show ?thesis
    using u d
      init_checks_keypoint_2d_src[of "\<lambda>f. True" "\<lambda>f. True" "\<lambda>a. Some ()" unknown_src_args]
      init_checks_keypoint_2d_src[of "\<lambda>f. True" "\<lambda>f. True" "\<lambda>a. Some ()" default_args]
    by metis
qed

section \<open>Padded windows\<close>

lemma window_left:
  fixes s i fl :: int
  assumes "0 < s" "0 \<le> fl"
  shows "max (i mod s) (i - fl * s) = i - min (i div s) fl * s"
    and "max 0 (fl - i div s) = fl - min (i div s) fl"
proof -
  have split: "i = i div s * s + i mod s" by simp
  have r: "0 \<le> i mod s" "i mod s < s" using assms(1) by simp_all
  show "max (i mod s) (i - fl * s) = i - min (i div s) fl * s"
  proof (cases "fl \<le> i div s")
    case True
    then have "fl * s \<le> i div s * s" using assms(1) by (simp add: mult_right_mono)
    then have "i mod s \<le> i - fl * s" using split by linarith
    then show ?thesis using True by (simp add: max_def min_def)
  next
    case False
    then have "i div s + 1 \<le> fl" by simp
    then have "(i div s + 1) * s \<le> fl * s" using assms(1) by (intro mult_right_mono) simp_all
    then have "i div s * s + s \<le> fl * s" by (simp add: algebra_simps)
    then have "i - fl * s \<le> i mod s" using split r by linarith
    moreover have "i - i div s * s = i mod s" using split by linarith
    ultimately show ?thesis using False by (simp add: max_def min_def)
  qed
  show "max 0 (fl - i div s) = fl - min (i div s) fl" by (simp add: max_def min_def)
qed

lemma window_right:
  fixes s i j fr :: int
  assumes "0 < s" "0 \<le> fr"
  shows "min (i + 1 + j - j mod s) (i + fr * s + 1) = i + min (j div s) fr * s + 1"
    and "max 0 (fr - j div s) = fr - min (j div s) fr"
proof -
  have split: "j = j div s * s + j mod s" by simp
  show "min (i + 1 + j - j mod s) (i + fr * s + 1) = i + min (j div s) fr * s + 1"
  proof (cases "fr \<le> j div s")
    case True
    then have "fr * s \<le> j div s * s" using assms(1) by (simp add: mult_right_mono)
    then have "i + fr * s + 1 \<le> i + 1 + j - j mod s" using split by linarith
    then show ?thesis using True by (simp add: min_def)
  next
    case False
    then have "j div s * s \<le> fr * s" using assms(1) by (intro mult_right_mono) simp_all
    then have "i + 1 + j - j mod s \<le> i + fr * s + 1" using split by linarith
    moreover have "i + 1 + j - j mod s = i + j div s * s + 1" using split by linarith
    ultimately show ?thesis using False by (simp add: min_def)
  qed
  show "max 0 (fr - j div s) = fr - min (j div s) fr" by (simp add: max_def min_def)
qed


lemma padded_sequence_form:
  fixes cfg xs i
  defines "s \<equiv> seq_step cfg"
    and "n \<equiv> int (length xs)"
    and "fl \<equiv> (if causal cfg then seq_len cfg - 1 else (seq_len cfg - 1) div 2)"
    and "fr \<equiv> (if causal cfg then 0 else (seq_len cfg - 1) div 2)"
  defines "a \<equiv> min (i div s) fl" and "b \<equiv> min ((n - 1 - i) div s) fr"
  assumes "1 \<le> seq_len cfg" "1 \<le> seq_step cfg" "0 \<le> i" "i < int (length xs)"
  shows "padded_sequence cfg xs i =
           Inr (replicate (nat (fl - a)) (xs ! 0) @
                map (\<lambda>k. xs ! nat (i - a * s + int k * s)) [0..<nat (a + b + 1)] @
                replicate (nat (fr - b)) (last xs))"
    and "0 \<le> a" "a \<le> fl" "0 \<le> b" "b \<le> fr"
proof -
  have s0: "0 < s" using assms by simp
  have fl0: "0 \<le> fl" using assms by (simp add: fl_def)
  have fr0: "0 \<le> fr" using assms by (simp add: fr_def)
  have ne: "xs \<noteq> []" using assms by auto
  define j where "j = n - 1 - i"
  have j0: "0 \<le> j" using assms by (simp add: j_def n_def)
  have q0: "0 \<le> i div s" using assms(9) s0 by (simp add: pos_imp_zdiv_nonneg_iff)
  have p0: "0 \<le> j div s" using j0 s0 by (simp add: pos_imp_zdiv_nonneg_iff)
  show a0: "0 \<le> a" and afl: "a \<le> fl" using q0 fl0 by (simp_all add: a_def)
  show b0: "0 \<le> b" and bfr: "b \<le> fr" using p0 fr0 by (simp_all add: b_def j_def)
  have "a * s \<le> i div s * s" using s0 by (intro mult_right_mono) (simp_all add: a_def)
  also have "\<dots> \<le> i" using s0 by (rule div_mult_le_int)
  finally have as: "a * s \<le> i" .
  have "b * s \<le> j div s * s" using s0 by (intro mult_right_mono) (simp_all add: b_def j_def)
  also have "\<dots> \<le> j" using s0 by (rule div_mult_le_int)
  finally have bs: "b * s \<le> j" .
  have as0: "0 \<le> a * s" and bs0: "0 \<le> b * s" using a0 b0 s0 by simp_all
  define start where "start = i - a * s"
  define stop where "stop = i + b * s + 1"
  have start: "max (i mod s) (i - fl * s) = start"
    unfolding start_def a_def using s0 fl0 by (rule window_left)
  have "n - (n - 1 - i) mod s = i + 1 + j - j mod s" by (simp add: j_def)
  then have stop: "min (n - (n - 1 - i) mod s) (i + fr * s + 1) = stop"
    unfolding stop_def b_def j_def[symmetric] using window_right(1)[OF s0 fr0, of i j] by simp
  have pl: "max 0 (fl - i div s) = fl - a"
    unfolding a_def using s0 fl0 by (rule window_left)
  have pr: "max 0 (fr - (n - 1 - i) div s) = fr - b"
    unfolding b_def using s0 fr0 by (rule window_right)
  have bounds: "0 \<le> start" "start \<le> n" "0 \<le> stop" "stop \<le> n" "start < stop"
    using as bs as0 bs0 assms(9) by (simp_all add: start_def stop_def j_def)
  have adj: "adjust_index n s start = start" "adjust_index n s stop = stop"
    using s0 bounds by (simp_all add: adjust_index_inside)
  have "stop - start - 1 = (a + b) * s" by (simp add: start_def stop_def algebra_simps)
  then have "(stop - start - 1) div s = a + b" using s0 by simp
  then have len: "slice_length start stop s = nat (a + b + 1)"
    using s0 bounds(5) by (simp add: slice_length_pos)
  have mid: "py_slice xs start stop s =
      Inr (map (\<lambda>k. xs ! nat (start + int k * s)) [0..<nat (a + b + 1)])"
    using s0 unfolding py_slice_def Let_def n_def[symmetric] adj len by simp
  have frdef: "(if causal cfg then 0 else fl) = fr" by (simp add: fl_def fr_def)
  show "padded_sequence cfg xs i =
           Inr (replicate (nat (fl - a)) (xs ! 0) @
                map (\<lambda>k. xs ! nat (i - a * s + int k * s)) [0..<nat (a + b + 1)] @
                replicate (nat (fr - b)) (last xs))"
    unfolding padded_sequence_def Let_def s_def[symmetric] n_def[symmetric] fl_def[symmetric]
      frdef start stop pl pr mid
    using s0 ne by (simp add: start_def)
qed


text \<open>
  The length of a padded window, for \<open>seq_len \<ge> 1\<close> and \<open>seq_step \<ge> 1\<close>: the frames on
  the left, the frame itself and the frames on the right. It is \<open>seq_len\<close> for a causal
  window and for a centred window of odd \<open>seq_len\<close>; a centred window of even \<open>seq_len\<close>
  has \<open>seq_len - 1\<close> elements.
\<close>

lemma padded_sequence_length:
  assumes "1 \<le> seq_len cfg" "1 \<le> seq_step cfg" "0 \<le> i" "i < int (length xs)"
  shows "\<exists>seq. padded_sequence cfg xs i = Inr seq \<and>
           int (length seq) =
             (if causal cfg then seq_len cfg else 2 * ((seq_len cfg - 1) div 2) + 1)"
proof -
  define fl where "fl = (if causal cfg then seq_len cfg - 1 else (seq_len cfg - 1) div 2)"
  define fr where "fr = (if causal cfg then 0 else (seq_len cfg - 1) div 2)"
  define a where "a = min (i div seq_step cfg) fl"
  define b where "b = min ((int (length xs) - 1 - i) div seq_step cfg) fr"
  note form = padded_sequence_form[OF assms, folded fl_def fr_def, folded a_def b_def]
  have "int (length (replicate (nat (fl - a)) (xs ! 0) @
                map (\<lambda>k. xs ! nat (i - a * seq_step cfg + int k * seq_step cfg)) [0..<nat (a + b + 1)] @
                replicate (nat (fr - b)) (last xs))) = fl + fr + 1"
    using form(2-5) by simp
  moreover have "fl + fr + 1 = (if causal cfg then seq_len cfg else 2 * ((seq_len cfg - 1) div 2) + 1)"
    by (simp add: fl_def fr_def)
  ultimately show ?thesis using form(1) by simp
qed

lemma padded_sequence_length_odd:
  assumes "1 \<le> seq_len cfg" "1 \<le> seq_step cfg" "0 \<le> i" "i < int (length xs)"
    and "causal cfg \<or> odd (seq_len cfg)"
  shows "\<exists>seq. padded_sequence cfg xs i = Inr seq \<and> int (length seq) = seq_len cfg"
proof -
  have "2 * ((seq_len cfg - 1) div 2) + 1 = seq_len cfg" if "odd (seq_len cfg)"
  proof -
    from that obtain k where "seq_len cfg = 2 * k + 1" by (rule oddE)
    then show ?thesis by simp
  qed
  then show ?thesis using padded_sequence_length[OF assms(1-4)] assms(5) by auto
qed


lemma seqs_padded_lengths:
  assumes "1 \<le> seq_len cfg" "1 \<le> seq_step cfg" "multiple_target cfg = 0" "pad_video_seq cfg"
  shows "\<exists>seqs. seqs_from_video cfg xs = Inr seqs \<and> length seqs = length xs \<and>
           (\<forall>i < length xs. int (length (seqs ! i)) =
              (if causal cfg then seq_len cfg else 2 * ((seq_len cfg - 1) div 2) + 1))"
proof -
  let ?frames = "map int [0..<length xs]"
  have each: "\<exists>seq. padded_sequence cfg xs i = Inr seq" if "i \<in> set ?frames" for i
  proof -
    from that have "0 \<le> i" "i < int (length xs)" by auto
    with assms(1,2) show ?thesis using padded_sequence_length by blast
  qed
  obtain seqs where seqs: "traverse (padded_sequence cfg xs) ?frames = Inr seqs"
    "length seqs = length ?frames"
    using traverse_total[of ?frames "padded_sequence cfg xs"] each by blast
  have run: "seqs_from_video cfg xs = Inr seqs"
    using assms(3,4) seqs(1) by (simp add: seqs_from_video_def seqs_padded_def py_range_unit)
  have "int (length (seqs ! i)) = (if causal cfg then seq_len cfg else 2 * ((seq_len cfg - 1) div 2) + 1)"
    if i: "i < length xs" for i
  proof -
    have "list_all2 (\<lambda>x y. padded_sequence cfg xs x = Inr y) ?frames seqs"
      using seqs(1) by (rule traverse_Inr_D)
    then have "padded_sequence cfg xs (?frames ! i) = Inr (seqs ! i)"
      using i by (simp add: list_all2_conv_all_nth)
    then have "padded_sequence cfg xs (int i) = Inr (seqs ! i)" using i by simp
    moreover have "0 \<le> int i" "int i < int (length xs)" using i by simp_all
    ultimately show ?thesis using padded_sequence_length[OF assms(1,2), of "int i" xs] by simp
  qed
  then show ?thesis using run seqs(2) by simp
qed

text \<open>
  Claim C1 at a centred window of even length. With \<open>seq_len = 2\<close>, \<open>seq_step = 1\<close>,
  \<open>pad_video_seq\<close> set and \<open>causal\<close> unset, a video of three frames gives the sequences
  \<open>[0]\<close>, \<open>[1]\<close>, \<open>[2]\<close> of one element each, where \<open>seq_len\<close> is 2; without padding the
  same configuration gives windows of two elements.
\<close>

theorem padded_even_window_is_short:
  "seq_len even_centred_config = 2 \<and> seq_step even_centred_config = 1 \<and>
   multiple_target even_centred_config = 0 \<and> pad_video_seq even_centred_config \<and>
   \<not> causal even_centred_config \<and>
   get_sequence_indices exact_mul randint_low even_centred_config three_frames =
     Inr [[0], [1], [2]] \<and>
   get_sequence_indices exact_mul randint_low (even_centred_config\<lparr>pad_video_seq := False\<rparr>)
     three_frames = Inr [[0, 1], [1, 2]]"
proof -
  have "get_sequence_indices exact_mul randint_low even_centred_config three_frames =
     Inr [[0], [1], [2]]"
    by code_simp
  moreover have "get_sequence_indices exact_mul randint_low
     (even_centred_config\<lparr>pad_video_seq := False\<rparr>) three_frames = Inr [[0, 1], [1, 2]]"
    by code_simp
  ultimately show ?thesis by (simp add: even_centred_config_def default_config_def)
qed

section \<open>Shapes of the encoded label\<close>


lemma has_shape_empty: "has_shape frames 0 K \<Longrightarrow> frames = []"
  by (simp add: has_shape_def)









end
